theory Spec2Isabelle
  imports Main "HOL-Library.Word" "HOL-Library.Sublist"
begin

section \<open>Code units, pointers and raw arrays\<close>

text \<open>
  The library is generic in the code-unit type \<open>CharT\<close>; the buffer operations are
  modelled for any type with a zero (the terminator \<open>CharT{}\<close>). Algorithms that look
  at character classes are modelled for \<open>char\<close>, an 8-bit unit.

  A \<open>const CharT*\<close> argument is an \<open>'a list option\<close>: \<open>None\<close> is \<open>nullptr\<close>, and
  \<open>Some m\<close> points at the units \<open>m\<close>, \<open>m ! i\<close> being \<open>str[i]\<close>. \<open>std::size_t\<close>
  values are natural numbers; the not-found value \<open>npos\<close> of a search is \<open>None\<close>.
\<close>

type_synonym char_t = "8 word"

definition units :: "string \<Rightarrow> char_t list" where
  "units s = map of_char s"

text \<open>A string literal \<open>"abc"\<close> as the array it denotes: its units and the terminator.\<close>

definition literal :: "string \<Rightarrow> char_t list" where
  "literal s = units s @ [0]"

text \<open>\<open>std::copy_n(src, n, dst + off)\<close>.\<close>

definition copy_n :: "'a list \<Rightarrow> nat \<Rightarrow> nat \<Rightarrow> 'a list \<Rightarrow> 'a list" where
  "copy_n src n off dst = take off dst @ take n src @ drop (off + n) dst"

text \<open>\<open>std::fill_n(dst + off, n, ch)\<close>; \<open>std::fill(dst + a, dst + b, ch)\<close> is \<open>fill_n dst a (b - a) ch\<close>.\<close>

definition fill_n :: "'a list \<Rightarrow> nat \<Rightarrow> nat \<Rightarrow> 'a \<Rightarrow> 'a list" where
  "fill_n dst off n ch = take off dst @ replicate n ch @ drop (off + n) dst"

text \<open>The length of a null-terminated string: \<open>while (str[len] != CharT{}) ++len\<close>.
  The list is the memory the pointer can read; a well-formed argument holds a zero.\<close>

fun c_strlen :: "'a::zero list \<Rightarrow> nat" where
  "c_strlen [] = 0"
| "c_strlen (c # cs) = (if c = 0 then 0 else Suc (c_strlen cs))"


section \<open>The bounded buffer \<open>basic_fstring<CharT, Cap>\<close> (zuu/core/core.hpp)\<close>

text \<open>\<open>fs_data\<close> is the array \<open>data_[Cap + 1]\<close>, \<open>fs_size\<close> the counter \<open>size_\<close>. The
  capacity is a template parameter and is passed to every operation that uses it.\<close>

record 'a fstring =
  fs_data :: "'a list"
  fs_size :: nat

definition fstring_default :: "nat \<Rightarrow> 'a::zero fstring" where
  "fstring_default Cap = \<lparr>fs_data = replicate (Cap + 1) 0, fs_size = 0\<rparr>"

definition set_null_terminator :: "'a::zero fstring \<Rightarrow> 'a fstring" where
  "set_null_terminator s = s\<lparr>fs_data := (fs_data s)[fs_size s := 0]\<rparr>"

text \<open>Constructor from a literal: \<open>str\<close> is the whole array of extent \<open>N\<close>.\<close>

definition fstring_literal :: "nat \<Rightarrow> 'a::zero list \<Rightarrow> 'a fstring" where
  "fstring_literal Cap str =
     (let sz = min Cap (length str - 1);
          s = fstring_default Cap
      in set_null_terminator (s\<lparr>fs_data := copy_n str sz 0 (fs_data s), fs_size := sz\<rparr>))"

text \<open>Constructor from pointer and length.\<close>

definition fstring_ptr_len :: "nat \<Rightarrow> 'a::zero list option \<Rightarrow> nat \<Rightarrow> 'a fstring" where
  "fstring_ptr_len Cap str len =
     (case str of
        None \<Rightarrow> fstring_default Cap
      | Some m \<Rightarrow>
          (let sz = min Cap len;
               s = fstring_default Cap
           in set_null_terminator (s\<lparr>fs_data := copy_n m sz 0 (fs_data s), fs_size := sz\<rparr>)))"

text \<open>Constructor from a null-terminated string: the loop
  \<open>while (str[len] != CharT{} && len < Cap) { data_[len] = str[len]; ++len; }\<close>.\<close>

function cstr_loop :: "nat \<Rightarrow> 'a::zero list \<Rightarrow> 'a list \<Rightarrow> nat \<Rightarrow> 'a list \<times> nat" where
  "cstr_loop Cap m d len =
     (if len < length m \<and> m ! len \<noteq> 0 \<and> len < Cap
      then cstr_loop Cap m (d[len := m ! len]) (len + 1)
      else (d, len))"
  by pat_completeness auto
termination
  by (relation "measure (\<lambda>(Cap, m, d, len). Cap - len)") auto

declare cstr_loop.simps [simp del]

definition fstring_cstr :: "nat \<Rightarrow> 'a::zero list option \<Rightarrow> 'a fstring" where
  "fstring_cstr Cap str =
     (case str of
        None \<Rightarrow> fstring_default Cap
      | Some m \<Rightarrow>
          (let (d, len) = cstr_loop Cap m (fs_data (fstring_default Cap)) 0
           in set_null_terminator \<lparr>fs_data = d, fs_size = len\<rparr>))"

text \<open>Fill constructor.\<close>

definition fstring_fill :: "nat \<Rightarrow> nat \<Rightarrow> 'a::zero \<Rightarrow> 'a fstring" where
  "fstring_fill Cap count ch =
     (let sz = min Cap count;
          s = fstring_default Cap
      in set_null_terminator (s\<lparr>fs_data := fill_n (fs_data s) 0 sz ch, fs_size := sz\<rparr>))"

subsection \<open>Capacity\<close>

definition fs_empty :: "'a fstring \<Rightarrow> bool" where
  "fs_empty s \<longleftrightarrow> fs_size s = 0"

definition available :: "nat \<Rightarrow> 'a fstring \<Rightarrow> nat" where
  "available Cap s = Cap - fs_size s"

definition full :: "nat \<Rightarrow> 'a fstring \<Rightarrow> bool" where
  "full Cap s \<longleftrightarrow> fs_size s = Cap"

text \<open>The content seen through \<open>std::basic_string_view{data_, size_}\<close>.\<close>

definition fs_view :: "'a fstring \<Rightarrow> 'a list" where
  "fs_view s = take (fs_size s) (fs_data s)"

subsection \<open>Modifiers\<close>

definition fs_clear :: "'a::zero fstring \<Rightarrow> 'a fstring" where
  "fs_clear s = s\<lparr>fs_data := (fs_data s)[0 := 0], fs_size := 0\<rparr>"

text \<open>\<open>push_back\<close> is declared \<open>void\<close>: the model returns the buffer alone.\<close>

definition fs_push_back :: "nat \<Rightarrow> 'a::zero \<Rightarrow> 'a fstring \<Rightarrow> 'a fstring" where
  "fs_push_back Cap ch s =
     (if \<not> full Cap s
      then set_null_terminator
             (s\<lparr>fs_data := (fs_data s)[fs_size s := ch], fs_size := fs_size s + 1\<rparr>)
      else s)"

text \<open>The call \<open>push_back(ch)\<close> as its caller sees it: the value returned, which for a
  \<open>void\<close> function is the unit value, and the buffer afterwards.\<close>

definition fs_push_back_call :: "nat \<Rightarrow> 'a::zero \<Rightarrow> 'a fstring \<Rightarrow> unit \<times> 'a fstring" where
  "fs_push_back_call Cap ch s = ((), fs_push_back Cap ch s)"

definition fs_pop_back :: "'a::zero fstring \<Rightarrow> 'a fstring" where
  "fs_pop_back s =
     (if fs_size s > 0 then set_null_terminator (s\<lparr>fs_size := fs_size s - 1\<rparr>) else s)"

definition fs_resize :: "nat \<Rightarrow> nat \<Rightarrow> 'a::zero \<Rightarrow> 'a fstring \<Rightarrow> 'a fstring" where
  "fs_resize Cap new_size ch s =
     (let new_size = min new_size Cap;
          d = (if new_size > fs_size s
               then fill_n (fs_data s) (fs_size s) (new_size - fs_size s) ch
               else fs_data s)
      in set_null_terminator (s\<lparr>fs_data := d, fs_size := new_size\<rparr>))"

text \<open>\<open>append(const_pointer str, size_type len)\<close> returns \<open>*this\<close>: the model returns
  the buffer.\<close>

definition fs_append :: "nat \<Rightarrow> 'a::zero list option \<Rightarrow> nat \<Rightarrow> 'a fstring \<Rightarrow> 'a fstring" where
  "fs_append Cap str len s =
     (case str of
        None \<Rightarrow> s
      | Some m \<Rightarrow>
          (if \<not> full Cap s
           then (let len = min len (available Cap s)
                 in set_null_terminator
                      (s\<lparr>fs_data := copy_n m len (fs_size s) (fs_data s),
                         fs_size := fs_size s + len\<rparr>))
           else s))"

definition fs_append_ch :: "nat \<Rightarrow> 'a::zero \<Rightarrow> 'a fstring \<Rightarrow> 'a fstring" where
  "fs_append_ch Cap ch s = fs_push_back Cap ch s"

definition fs_append_fill :: "nat \<Rightarrow> nat \<Rightarrow> 'a::zero \<Rightarrow> 'a fstring \<Rightarrow> 'a fstring" where
  "fs_append_fill Cap count ch s =
     (let count = min count (available Cap s)
      in set_null_terminator
           (s\<lparr>fs_data := fill_n (fs_data s) (fs_size s) count ch,
              fs_size := fs_size s + count\<rparr>))"

subsection \<open>Substring\<close>

definition fs_substr :: "nat \<Rightarrow> 'a::zero fstring \<Rightarrow> nat \<Rightarrow> nat option \<Rightarrow> 'a fstring" where
  "fs_substr ResultCap s pos count =
     (let result = fstring_default ResultCap
      in if pos \<ge> fs_size s then result
         else (let count = (case count of None \<Rightarrow> fs_size s - pos
                                        | Some c \<Rightarrow> min c (fs_size s - pos))
               in fs_append ResultCap (Some (drop pos (fs_data s))) count result))"

subsection \<open>Concatenation with a character array\<close>

text \<open>\<open>operator+(const CharT (&rhs)[N])\<close> and \<open>operator+=(const CharT (&rhs)[N])\<close>;
  \<open>rhs\<close> is the whole array, \<open>N = length rhs\<close>.\<close>

definition fs_plus_array :: "nat \<Rightarrow> 'a::zero fstring \<Rightarrow> 'a list \<Rightarrow> 'a fstring" where
  "fs_plus_array Cap s rhs =
     (let N = length rhs;
          result = fstring_default (Cap + N);
          result = fs_append (Cap + N) (Some (fs_data s)) (fs_size s) result;
          result = fs_append (Cap + N) (Some rhs) N result
      in result)"

definition fs_plus_assign_array :: "nat \<Rightarrow> 'a::zero fstring \<Rightarrow> 'a list \<Rightarrow> 'a fstring" where
  "fs_plus_assign_array Cap s rhs = fs_append Cap (Some rhs) (length rhs) s"

subsection \<open>Stream output\<close>

text \<open>An output stream is the list of units written to it so far. Inserting a
  \<open>const CharT*\<close> writes the units before the first zero.\<close>

definition ostream_insert_cstr :: "'a::zero list \<Rightarrow> 'a list \<Rightarrow> 'a list" where
  "ostream_insert_cstr os m = os @ takeWhile (\<lambda>c. c \<noteq> 0) m"

text \<open>\<open>operator<<(os, str)\<close> is \<open>os << str.data()\<close>.\<close>

definition fs_stream_out :: "'a::zero list \<Rightarrow> 'a fstring \<Rightarrow> 'a list" where
  "fs_stream_out os s = ostream_insert_cstr os (fs_data s)"

subsection \<open>The buffer invariant\<close>

definition fs_inv :: "nat \<Rightarrow> 'a::zero fstring \<Rightarrow> bool" where
  "fs_inv Cap s \<longleftrightarrow>
     length (fs_data s) = Cap + 1 \<and> fs_size s \<le> Cap \<and> fs_data s ! fs_size s = 0"


section \<open>The class \<open>zuu::string<CharT, N>\<close> (constant_string_class.hpp)\<close>

text \<open>\<open>zs_data\<close> is the array \<open>data_[N + 1]\<close>, \<open>zs_len\<close> the counter \<open>len_\<close>.\<close>

record 'a zstring =
  zs_data :: "'a list"
  zs_len :: nat

text \<open>Modelled from the spec: \<open>detail::memcpy_string\<close>, \<open>detail::memmove_string\<close> and
  \<open>detail::memset_string\<close> of constant_string_detail.hpp, which is not among the
  sources. The spec has the mutations copy units from the source, shift the tail and
  fill; the three helpers are taken to copy \<open>n\<close> units from another array, to copy
  \<open>n\<close> units inside one array (the source range read before any unit is written), and
  to store \<open>n\<close> copies of a unit.\<close>

definition memcpy_string :: "'a list \<Rightarrow> nat \<Rightarrow> 'a list \<Rightarrow> nat \<Rightarrow> 'a list" where
  "memcpy_string dst off src n = copy_n src n off dst"

definition memmove_string :: "'a list \<Rightarrow> nat \<Rightarrow> nat \<Rightarrow> nat \<Rightarrow> 'a list" where
  "memmove_string d dst_off src_off n = copy_n (drop src_off d) n dst_off d"

definition memset_string :: "'a list \<Rightarrow> nat \<Rightarrow> 'a \<Rightarrow> nat \<Rightarrow> 'a list" where
  "memset_string dst off ch n = fill_n dst off n ch"

definition string_default :: "nat \<Rightarrow> 'a::zero zstring" where
  "string_default N = \<lparr>zs_data = replicate (N + 1) 0, zs_len = 0\<rparr>"

definition assign_impl :: "nat \<Rightarrow> 'a::zero list \<Rightarrow> nat \<Rightarrow> 'a zstring \<Rightarrow> 'a zstring" where
  "assign_impl N str count s =
     (let len = (if count < N then count else N);
          d = memcpy_string (zs_data s) 0 str len
      in \<lparr>zs_data = d[len := 0], zs_len = len\<rparr>)"

subsection \<open>Constructors and assignment\<close>

definition string_cstr :: "nat \<Rightarrow> 'a::zero list option \<Rightarrow> 'a zstring" where
  "string_cstr N str =
     (case str of
        None \<Rightarrow> string_default N
      | Some m \<Rightarrow> assign_impl N m (c_strlen m) (string_default N))"

definition string_array :: "nat \<Rightarrow> 'a::zero list \<Rightarrow> 'a zstring" where
  "string_array N str =
     (let M = length str
      in assign_impl N str (if M > 0 then M - 1 else 0) (string_default N))"

definition string_fill :: "nat \<Rightarrow> nat \<Rightarrow> 'a::zero \<Rightarrow> 'a zstring" where
  "string_fill N count ch =
     (let len = (if count < N then count else N);
          d = memset_string (zs_data (string_default N)) 0 ch len
      in \<lparr>zs_data = d[len := 0], zs_len = len\<rparr>)"

definition string_copy :: "nat \<Rightarrow> 'a::zero zstring \<Rightarrow> 'a zstring" where
  "string_copy N other = assign_impl N (zs_data other) (zs_len other) (string_default N)"

definition string_clear :: "'a::zero zstring \<Rightarrow> 'a zstring" where
  "string_clear s = s\<lparr>zs_data := (zs_data s)[0 := 0], zs_len := 0\<rparr>"

definition string_assign_cstr :: "nat \<Rightarrow> 'a::zero list option \<Rightarrow> 'a zstring \<Rightarrow> 'a zstring" where
  "string_assign_cstr N str s =
     (case str of
        Some m \<Rightarrow> assign_impl N m (c_strlen m) s
      | None \<Rightarrow> string_clear s)"

definition string_assign :: "nat \<Rightarrow> 'a::zero zstring \<Rightarrow> 'a zstring \<Rightarrow> 'a zstring" where
  "string_assign N other s = assign_impl N (zs_data other) (zs_len other) s"

subsection \<open>Capacity and modifiers\<close>

definition string_available :: "nat \<Rightarrow> 'a zstring \<Rightarrow> nat" where
  "string_available N s = N - zs_len s"

definition str_view :: "'a zstring \<Rightarrow> 'a list" where
  "str_view s = take (zs_len s) (zs_data s)"

text \<open>\<open>push_back\<close> returns \<open>bool\<close>: the model returns the flag and the buffer.\<close>

definition string_push_back :: "nat \<Rightarrow> 'a::zero \<Rightarrow> 'a zstring \<Rightarrow> bool \<times> 'a zstring" where
  "string_push_back N ch s =
     (if zs_len s \<ge> N then (False, s)
      else (let d = (zs_data s)[zs_len s := ch];
                len = zs_len s + 1
            in (True, \<lparr>zs_data = d[len := 0], zs_len = len\<rparr>)))"

definition string_pop_back :: "'a::zero zstring \<Rightarrow> 'a zstring" where
  "string_pop_back s =
     (if zs_len s > 0
      then \<lparr>zs_data = (zs_data s)[zs_len s - 1 := 0], zs_len = zs_len s - 1\<rparr>
      else s)"

text \<open>\<open>append(const CharT* str, size_type count)\<close> returns the number of units copied.\<close>

definition string_append :: "nat \<Rightarrow> 'a::zero list option \<Rightarrow> nat \<Rightarrow> 'a zstring \<Rightarrow> nat \<times> 'a zstring" where
  "string_append N str count s =
     (case str of
        None \<Rightarrow> (0, s)
      | Some m \<Rightarrow>
          (if count = 0 \<or> zs_len s \<ge> N then (0, s)
           else (let to_copy = min count (N - zs_len s);
                     d = memcpy_string (zs_data s) (zs_len s) m to_copy;
                     len = zs_len s + to_copy
                 in (to_copy, \<lparr>zs_data = d[len := 0], zs_len = len\<rparr>))))"

definition string_append_string :: "nat \<Rightarrow> 'a::zero zstring \<Rightarrow> 'a zstring \<Rightarrow> nat \<times> 'a zstring" where
  "string_append_string N other s = string_append N (Some (zs_data other)) (zs_len other) s"

definition string_append_cstr :: "nat \<Rightarrow> 'a::zero list option \<Rightarrow> 'a zstring \<Rightarrow> nat \<times> 'a zstring" where
  "string_append_cstr N str s =
     (case str of
        Some m \<Rightarrow> string_append N (Some m) (c_strlen m) s
      | None \<Rightarrow> (0, s))"

definition string_append_fill :: "nat \<Rightarrow> nat \<Rightarrow> 'a::zero \<Rightarrow> 'a zstring \<Rightarrow> nat \<times> 'a zstring" where
  "string_append_fill N count ch s =
     (if count = 0 \<or> zs_len s \<ge> N then (0, s)
      else (let to_add = min count (N - zs_len s);
                d = memset_string (zs_data s) (zs_len s) ch to_add;
                len = zs_len s + to_add
            in (to_add, \<lparr>zs_data = d[len := 0], zs_len = len\<rparr>)))"

definition string_insert :: "nat \<Rightarrow> nat \<Rightarrow> 'a::zero list option \<Rightarrow> nat \<Rightarrow> 'a zstring \<Rightarrow> 'a zstring" where
  "string_insert N pos str count s =
     (case str of
        None \<Rightarrow> s
      | Some m \<Rightarrow>
          (if pos > zs_len s \<or> count = 0 \<or> zs_len s \<ge> N then s
           else (let space = N - zs_len s;
                     to_insert = min count space;
                     to_move = zs_len s - pos;
                     d = (if to_move > 0
                          then memmove_string (zs_data s) (pos + to_insert) pos to_move
                          else zs_data s);
                     d = memcpy_string d pos m to_insert;
                     len = min (zs_len s + to_insert) N
                 in \<lparr>zs_data = d[len := 0], zs_len = len\<rparr>)))"

text \<open>\<open>erase(pos, count)\<close>; the default \<open>count = npos\<close> is \<open>None\<close>.\<close>

definition string_erase :: "nat \<Rightarrow> nat option \<Rightarrow> 'a::zero zstring \<Rightarrow> 'a zstring" where
  "string_erase pos count s =
     (if pos \<ge> zs_len s then s
      else (let to_erase = (case count of None \<Rightarrow> zs_len s - pos
                                        | Some c \<Rightarrow> min c (zs_len s - pos));
                new_len = zs_len s - to_erase;
                to_move = zs_len s - (pos + to_erase);
                d = (if to_move > 0
                     then memmove_string (zs_data s) pos (pos + to_erase) to_move
                     else zs_data s)
            in \<lparr>zs_data = d[new_len := 0], zs_len = new_len\<rparr>))"

definition string_replace ::
  "nat \<Rightarrow> nat \<Rightarrow> nat option \<Rightarrow> 'a::zero list option \<Rightarrow> nat \<Rightarrow> 'a zstring \<Rightarrow> 'a zstring" where
  "string_replace N pos count str str_len s =
     (case str of
        None \<Rightarrow> s
      | Some m \<Rightarrow>
          (if pos > zs_len s then s
           else string_insert N pos (Some m) str_len (string_erase pos count s)))"

text \<open>\<open>reverse()\<close>: the loop \<open>for (i = 0; i < len_ / 2; ++i)\<close> swaps units \<open>i\<close> and
  \<open>len_ - 1 - i\<close>.\<close>

definition swap_units :: "nat \<Rightarrow> nat \<Rightarrow> 'a list \<Rightarrow> 'a list" where
  "swap_units i j d = (let tmp = d ! i; d = d[i := d ! j] in d[j := tmp])"

definition string_reverse :: "'a zstring \<Rightarrow> 'a zstring" where
  "string_reverse s =
     s\<lparr>zs_data := fold (\<lambda>i d. swap_units i (zs_len s - 1 - i) d)
                          [0..<zs_len s div 2] (zs_data s)\<rparr>"

text \<open>\<open>trim()\<close>. The predicate \<open>detail::is_space\<close> lives in the absent
  constant_string_detail.hpp and is a parameter.\<close>

function trim_start_loop :: "('a \<Rightarrow> bool) \<Rightarrow> 'a zstring \<Rightarrow> nat \<Rightarrow> nat" where
  "trim_start_loop is_sp s start =
     (if start < zs_len s \<and> is_sp (zs_data s ! start)
      then trim_start_loop is_sp s (start + 1)
      else start)"
  by pat_completeness auto
termination
  by (relation "measure (\<lambda>(is_sp, s, start). zs_len s - start)") auto

declare trim_start_loop.simps [simp del]

function trim_end_loop :: "('a \<Rightarrow> bool) \<Rightarrow> 'a zstring \<Rightarrow> nat \<Rightarrow> nat \<Rightarrow> nat" where
  "trim_end_loop is_sp s start e =
     (if e > start \<and> is_sp (zs_data s ! (e - 1))
      then trim_end_loop is_sp s start (e - 1)
      else e)"
  by pat_completeness auto
termination
  by (relation "measure (\<lambda>(is_sp, s, start, e). e)") auto

declare trim_end_loop.simps [simp del]

definition string_trim :: "('a \<Rightarrow> bool) \<Rightarrow> 'a::zero zstring \<Rightarrow> 'a zstring" where
  "string_trim is_sp s =
     (let start = trim_start_loop is_sp s 0;
          e = trim_end_loop is_sp s start (zs_len s)
      in if start > 0 \<or> e < zs_len s
         then (let len = e - start;
                   d = (if start > 0 then memmove_string (zs_data s) 0 start len
                        else zs_data s)
               in \<lparr>zs_data = d[len := 0], zs_len = len\<rparr>)
         else s)"

definition string_substr :: "nat \<Rightarrow> 'a::zero zstring \<Rightarrow> nat \<Rightarrow> nat option \<Rightarrow> 'a zstring" where
  "string_substr N s pos count =
     (let result = string_default N
      in if pos \<ge> zs_len s then result
         else (let actual_count = (case count of None \<Rightarrow> zs_len s - pos
                                               | Some c \<Rightarrow> min c (zs_len s - pos))
               in assign_impl N (drop pos (zs_data s)) actual_count result))"

definition str_inv :: "nat \<Rightarrow> 'a::zero zstring \<Rightarrow> bool" where
  "str_inv N s \<longleftrightarrow>
     length (zs_data s) = N + 1 \<and> zs_len s \<le> N \<and> zs_data s ! zs_len s = 0"


section \<open>Segmentation (zuu/str/split.hpp)\<close>

text \<open>\<open>split_result<CharT, Cap, MaxParts>\<close>: the array \<open>parts[MaxParts]\<close> and \<open>count\<close>.\<close>

record 'a split_result =
  sr_parts :: "'a fstring list"
  sr_count :: nat

definition split_result_default :: "nat \<Rightarrow> nat \<Rightarrow> 'a::zero split_result" where
  "split_result_default Cap MaxParts =
     \<lparr>sr_parts = replicate MaxParts (fstring_default Cap), sr_count = 0\<rparr>"

text \<open>The statement \<open>result.parts[result.count++] = part\<close>.\<close>

definition split_push :: "'a fstring \<Rightarrow> 'a split_result \<Rightarrow> 'a split_result" where
  "split_push part result =
     result\<lparr>sr_parts := (sr_parts result)[sr_count result := part],
            sr_count := sr_count result + 1\<rparr>"

text \<open>The tokens a caller reads by iterating \<open>[0, count)\<close>.\<close>

definition sr_tokens :: "'a split_result \<Rightarrow> 'a list list" where
  "sr_tokens result = map fs_view (take (sr_count result) (sr_parts result))"

subsection \<open>\<open>split_char_fn::operator()\<close>\<close>

text \<open>The body of the loop \<open>for (i = 0; i < str.size(); ++i)\<close>, on the unit
  \<open>ch = str[i]\<close> and the pair of \<open>result\<close> and \<open>current\<close>.\<close>

definition split_char_body ::
  "nat \<Rightarrow> nat \<Rightarrow> 'a::zero \<Rightarrow> 'a \<Rightarrow> 'a split_result \<times> 'a fstring
     \<Rightarrow> 'a split_result \<times> 'a fstring" where
  "split_char_body Cap MaxParts delimiter ch st =
     (case st of (result, current) \<Rightarrow>
        if ch = delimiter
        then (if \<not> fs_empty current \<and> sr_count result < MaxParts
              then (split_push current result, fs_clear current)
              else (result, current))
        else (if \<not> full Cap current
              then (result, fs_push_back Cap ch current)
              else (result, current)))"

definition split_char :: "nat \<Rightarrow> nat \<Rightarrow> 'a::zero fstring \<Rightarrow> 'a \<Rightarrow> 'a split_result" where
  "split_char Cap MaxParts str delimiter =
     (case fold (\<lambda>i. split_char_body Cap MaxParts delimiter (fs_data str ! i))
                [0..<fs_size str]
                (split_result_default Cap MaxParts, fstring_default Cap)
      of (result, current) \<Rightarrow>
        if \<not> fs_empty current \<and> sr_count result < MaxParts
        then split_push current result
        else result)"

subsection \<open>\<open>rsplit_fn::operator()\<close>\<close>

text \<open>The inner loop \<open>for (j = current.size(); j > 0; --j) reversed.push_back(current[j - 1])\<close>.\<close>

definition reversed_copy :: "nat \<Rightarrow> 'a::zero fstring \<Rightarrow> 'a fstring" where
  "reversed_copy Cap current =
     fold (\<lambda>j reversed. fs_push_back Cap (fs_data current ! (j - 1)) reversed)
          (rev [1..<fs_size current + 1]) (fstring_default Cap)"

definition rsplit_body ::
  "nat \<Rightarrow> 'a::zero \<Rightarrow> 'a \<Rightarrow> 'a split_result \<times> 'a fstring \<Rightarrow> 'a split_result \<times> 'a fstring" where
  "rsplit_body Cap delimiter ch st =
     (case st of (result, current) \<Rightarrow>
        if ch = delimiter
        then (if \<not> fs_empty current
              then (split_push (reversed_copy Cap current) result, fs_clear current)
              else (result, current))
        else (result, fs_push_back Cap ch current))"

text \<open>The loop \<open>for (i = str.size(); i > 0 && result.count < MaxParts; --i)\<close>.\<close>

function rsplit_loop ::
  "nat \<Rightarrow> nat \<Rightarrow> 'a::zero fstring \<Rightarrow> 'a \<Rightarrow> nat \<Rightarrow> 'a split_result \<times> 'a fstring
     \<Rightarrow> 'a split_result \<times> 'a fstring" where
  "rsplit_loop Cap MaxParts str delimiter i st =
     (if i > 0 \<and> sr_count (fst st) < MaxParts
      then rsplit_loop Cap MaxParts str delimiter (i - 1)
             (rsplit_body Cap delimiter (fs_data str ! (i - 1)) st)
      else st)"
  by pat_completeness auto
termination
  by (relation "measure (\<lambda>(Cap, MaxParts, str, delimiter, i, st). i)") auto

declare rsplit_loop.simps [simp del]

text \<open>The last loop swaps \<open>parts[i]\<close> and \<open>parts[count - 1 - i]\<close> for \<open>i < count / 2\<close>.\<close>

definition reverse_parts :: "'a split_result \<Rightarrow> 'a split_result" where
  "reverse_parts result =
     result\<lparr>sr_parts := fold (\<lambda>i p. swap_units i (sr_count result - 1 - i) p)
                               [0..<sr_count result div 2] (sr_parts result)\<rparr>"

definition rsplit :: "nat \<Rightarrow> nat \<Rightarrow> 'a::zero fstring \<Rightarrow> 'a \<Rightarrow> 'a split_result" where
  "rsplit Cap MaxParts str delimiter =
     (case rsplit_loop Cap MaxParts str delimiter (fs_size str)
             (split_result_default Cap MaxParts, fstring_default Cap)
      of (result, current) \<Rightarrow>
        reverse_parts
          (if \<not> fs_empty current \<and> sr_count result < MaxParts
           then split_push (reversed_copy Cap current) result
           else result))"

subsection \<open>What the spec calls a split token\<close>

text \<open>The spec's glossary: a split token is a maximal run of non-delimiter units.
  \<open>split_tokens d xs\<close> lists the non-empty maximal runs of \<open>xs\<close>, left to right.\<close>

function split_tokens :: "'a \<Rightarrow> 'a list \<Rightarrow> 'a list list" where
  "split_tokens d [] = []"
| "split_tokens d (x # xs) =
     (if x = d then split_tokens d xs
      else (x # takeWhile (\<lambda>c. c \<noteq> d) xs) # split_tokens d (dropWhile (\<lambda>c. c \<noteq> d) xs))"
  by pat_completeness auto
termination
  by (relation "measure (\<lambda>(d, xs). length xs)")
     (auto simp: length_dropWhile_le less_Suc_eq_le)

subsection \<open>Token scans used in the proofs\<close>

text \<open>The left-to-right scan of \<open>split\<close> on plain lists: the tokens finished so far and
  the pending token.\<close>

definition tok_step :: "'a \<Rightarrow> 'a \<Rightarrow> 'a list list \<times> 'a list \<Rightarrow> 'a list list \<times> 'a list" where
  "tok_step d x a =
     (case a of (ts, cur) \<Rightarrow>
        if x = d then (if cur \<noteq> [] then (ts @ [cur], []) else (ts, cur))
        else (ts, cur @ [x]))"

definition tok_final :: "'a list list \<times> 'a list \<Rightarrow> 'a list list" where
  "tok_final a = (case a of (ts, cur) \<Rightarrow> ts @ (if cur \<noteq> [] then [cur] else []))"

text \<open>The right-to-left scan of \<open>rsplit\<close> on plain lists.\<close>

definition rtok_step :: "'a \<Rightarrow> 'a \<Rightarrow> 'a list list \<times> 'a list \<Rightarrow> 'a list list \<times> 'a list" where
  "rtok_step d x a =
     (case a of (ts, cur) \<Rightarrow>
        if x = d then (if cur \<noteq> [] then (cur # ts, []) else (ts, cur))
        else (ts, x # cur))"

definition rtok_final :: "'a list list \<times> 'a list \<Rightarrow> 'a list list" where
  "rtok_final a = (case a of (ts, cur) \<Rightarrow> if cur \<noteq> [] then cur # ts else ts)"

text \<open>How the state of \<open>split\<close> mirrors the scan of the units read so far.\<close>

definition split_rel ::
  "nat \<Rightarrow> nat \<Rightarrow> 'a::zero split_result \<times> 'a fstring \<Rightarrow> 'a list list \<times> 'a list \<Rightarrow> bool" where
  "split_rel Cap MaxParts st a =
     (case st of (result, current) \<Rightarrow> case a of (ts, cur) \<Rightarrow>
        length (sr_parts result) = MaxParts \<and> fs_inv Cap current
        \<and> list_all (fs_inv Cap) (sr_parts result)
        \<and> sr_tokens result = take MaxParts ts
        \<and> sr_count result = min MaxParts (length ts)
        \<and> (length ts < MaxParts \<longrightarrow> fs_view current = cur))"

text \<open>The same for \<open>rsplit\<close>, which stores the tokens last first and the pending token
  reversed.\<close>

definition rsplit_rel ::
  "nat \<Rightarrow> nat \<Rightarrow> 'a::zero split_result \<times> 'a fstring \<Rightarrow> 'a list list \<times> 'a list \<Rightarrow> bool" where
  "rsplit_rel Cap MaxParts st a =
     (case st of (result, current) \<Rightarrow> case a of (ts, cur) \<Rightarrow>
        length (sr_parts result) = MaxParts \<and> fs_inv Cap current
        \<and> list_all (fs_inv Cap) (sr_parts result)
        \<and> sr_tokens result = take MaxParts (rev ts)
        \<and> sr_count result = min MaxParts (length ts)
        \<and> (length ts < MaxParts \<longrightarrow> fs_view current = rev cur))"

text \<open>The fields between delimiters, empty ones included: what a split that kept empty
  tokens would return.\<close>

fun delimited_fields :: "'a \<Rightarrow> 'a list \<Rightarrow> 'a list list" where
  "delimited_fields d [] = [[]]"
| "delimited_fields d (x # xs) =
     (if x = d then [] # delimited_fields d xs
      else (x # hd (delimited_fields d xs)) # tl (delimited_fields d xs))"

section \<open>Search (zuu/core/core.hpp, zuu/str/find.hpp)\<close>

text \<open>\<open>basic_fstring::find(const_pointer str, size_type pos)\<close>. The inner loop over
  \<open>j\<close> with its \<open>break\<close> decides whether all \<open>str_len\<close> units agree.\<close>

definition match_at :: "'a fstring \<Rightarrow> 'a list \<Rightarrow> nat \<Rightarrow> nat \<Rightarrow> bool" where
  "match_at s m str_len i = list_all (\<lambda>j. fs_data s ! (i + j) = m ! j) [0..<str_len]"

function find_loop :: "'a fstring \<Rightarrow> 'a list \<Rightarrow> nat \<Rightarrow> nat \<Rightarrow> nat option" where
  "find_loop s m str_len i =
     (if i \<le> fs_size s - str_len
      then (if match_at s m str_len i then Some i else find_loop s m str_len (i + 1))
      else None)"
  by pat_completeness auto
termination
  by (relation "measure (\<lambda>(s, m, str_len, i). fs_size s - str_len + 1 - i)") auto

declare find_loop.simps [simp del]

definition fs_find_str :: "'a::zero fstring \<Rightarrow> 'a list option \<Rightarrow> nat \<Rightarrow> nat option" where
  "fs_find_str s str pos =
     (case str of
        None \<Rightarrow> None
      | Some m \<Rightarrow>
          (let str_len = c_strlen m
           in if str_len = 0 then Some pos
              else if pos + str_len > fs_size s then None
              else find_loop s m str_len pos))"

text \<open>\<open>count_fn::operator()(str, const CharT* substr)\<close>. Its \<open>while\<close> loop returns only
  if the position advances, so the loop is a partial function: \<open>None\<close> stands for not
  returning.\<close>

partial_function (option) count_loop ::
  "'a::zero fstring \<Rightarrow> 'a list \<Rightarrow> nat \<Rightarrow> nat \<Rightarrow> nat \<Rightarrow> nat option" where
  "count_loop str substr substr_len cnt pos =
     (if pos < fs_size str
      then (case fs_find_str str (Some substr) pos of
              None \<Rightarrow> Some cnt
            | Some found \<Rightarrow> count_loop str substr substr_len (cnt + 1) (found + substr_len))
      else Some cnt)"

declare count_loop.simps [code]

definition count_str :: "'a::zero fstring \<Rightarrow> 'a list option \<Rightarrow> nat option" where
  "count_str str substr =
     (case substr of
        None \<Rightarrow> Some 0
      | Some m \<Rightarrow>
          (let substr_len = c_strlen m
           in if substr_len = 0 then Some 0 else count_loop str m substr_len 0 0))"

text \<open>The spec's non-overlapping occurrence count: scan left to right, and after each
  match move past the whole match, otherwise move on by one unit.\<close>

function count_nonoverlap :: "'a list \<Rightarrow> 'a list \<Rightarrow> nat" where
  "count_nonoverlap p xs =
     (if p = [] \<or> xs = [] then 0
      else if prefix p xs then 1 + count_nonoverlap p (drop (length p) xs)
      else count_nonoverlap p (tl xs))"
  by pat_completeness auto
termination
  by (relation "measure (\<lambda>(p, xs). length xs)") auto

declare count_nonoverlap.simps [simp del]


section \<open>Trimming (zuu/str/trim.hpp)\<close>

text \<open>\<open>is_space\<close> of trim.hpp: space, \<open>\t\<close>, \<open>\n\<close>, \<open>\r\<close>, \<open>\f\<close>, \<open>\v\<close>.\<close>

definition is_space :: "char_t \<Rightarrow> bool" where
  "is_space ch \<longleftrightarrow>
     ch = of_char CHR '' '' \<or> ch = 9 \<or> ch = 10 \<or> ch = 13 \<or> ch = 12 \<or> ch = 11"

text \<open>A \<open>std::basic_string_view\<close> is the memory its pointer reads and its size.\<close>

type_synonym 'a string_view = "'a list \<times> nat"

definition fs_string_view :: "'a fstring \<Rightarrow> 'a string_view" where
  "fs_string_view str = (fs_data str, fs_size str)"

text \<open>\<open>sv.substr(pos, count)\<close> for \<open>pos \<le> sv.size()\<close>; \<open>None\<close> is the default \<open>npos\<close>.\<close>

definition sv_substr :: "'a string_view \<Rightarrow> nat \<Rightarrow> nat option \<Rightarrow> 'a string_view" where
  "sv_substr sv pos count =
     (case sv of (m, n) \<Rightarrow>
        (drop pos m, (case count of None \<Rightarrow> n - pos | Some c \<Rightarrow> min c (n - pos))))"

function first_non_space_loop :: "char_t string_view \<Rightarrow> nat \<Rightarrow> nat" where
  "first_non_space_loop sv i =
     (if i < snd sv
      then (if \<not> is_space (fst sv ! i) then i else first_non_space_loop sv (i + 1))
      else snd sv)"
  by pat_completeness auto
termination
  by (relation "measure (\<lambda>(sv, i). snd sv - i)") auto

declare first_non_space_loop.simps [simp del]

definition find_first_non_space :: "char_t string_view \<Rightarrow> nat" where
  "find_first_non_space sv = first_non_space_loop sv 0"

text \<open>The loop \<open>for (i = sv.size(); i > 0; --i)\<close>.\<close>

fun last_non_space_loop :: "char_t string_view \<Rightarrow> nat \<Rightarrow> nat" where
  "last_non_space_loop sv 0 = 0"
| "last_non_space_loop sv (Suc i) =
     (if \<not> is_space (fst sv ! i) then Suc i else last_non_space_loop sv i)"

definition find_last_non_space :: "char_t string_view \<Rightarrow> nat" where
  "find_last_non_space sv = last_non_space_loop sv (snd sv)"

text \<open>The overloads of \<open>apply\<close> for \<open>basic_fstring<CharT, Cap>\<close>.\<close>

definition trim_left :: "nat \<Rightarrow> char_t fstring \<Rightarrow> char_t fstring" where
  "trim_left Cap str =
     (let sv = fs_string_view str;
          start = find_first_non_space sv;
          result = fstring_default Cap
      in if start < snd sv
         then (let trimmed = sv_substr sv start None
               in fs_append Cap (Some (fst trimmed)) (snd trimmed) result)
         else result)"

definition trim_right :: "nat \<Rightarrow> char_t fstring \<Rightarrow> char_t fstring" where
  "trim_right Cap str =
     (let sv = fs_string_view str;
          e = find_last_non_space sv;
          result = fstring_default Cap
      in if e > 0
         then (let trimmed = sv_substr sv 0 (Some e)
               in fs_append Cap (Some (fst trimmed)) (snd trimmed) result)
         else result)"

definition trim :: "nat \<Rightarrow> char_t fstring \<Rightarrow> char_t fstring" where
  "trim Cap str =
     (let sv = fs_string_view str;
          start = find_first_non_space sv;
          e = find_last_non_space sv;
          result = fstring_default Cap
      in if start < e
         then (let trimmed = sv_substr sv start (Some (e - start))
               in fs_append Cap (Some (fst trimmed)) (snd trimmed) result)
         else result)"


section \<open>Case conversion (zuu/str/case.hpp)\<close>

text \<open>The helpers compare a unit with character constants. For \<open>char\<close> the
  comparisons are between bytes; every constant is ASCII, so a byte of 128 or more
  fails each range test whether \<open>char\<close> is signed or not, as it does here.\<close>

definition char_to_lower :: "char_t \<Rightarrow> char_t" where
  "char_to_lower ch =
     (if ch \<ge> of_char CHR ''A'' \<and> ch \<le> of_char CHR ''Z''
      then ch + (of_char CHR ''a'' - of_char CHR ''A'')
      else ch)"

definition char_to_upper :: "char_t \<Rightarrow> char_t" where
  "char_to_upper ch =
     (if ch \<ge> of_char CHR ''a'' \<and> ch \<le> of_char CHR ''z''
      then ch - (of_char CHR ''a'' - of_char CHR ''A'')
      else ch)"

definition is_alpha :: "char_t \<Rightarrow> bool" where
  "is_alpha ch \<longleftrightarrow>
     (ch \<ge> of_char CHR ''a'' \<and> ch \<le> of_char CHR ''z'')
     \<or> (ch \<ge> of_char CHR ''A'' \<and> ch \<le> of_char CHR ''Z'')"

text \<open>\<open>is_whitespace\<close> of case.hpp: space, \<open>\t\<close>, \<open>\n\<close>, \<open>\r\<close>.\<close>

definition is_whitespace :: "char_t \<Rightarrow> bool" where
  "is_whitespace ch \<longleftrightarrow> ch = of_char CHR '' '' \<or> ch = 9 \<or> ch = 10 \<or> ch = 13"

text \<open>The body of the loop of \<open>to_title_fn::apply\<close> on the unit \<open>ch = str[i]\<close> and the
  pair of \<open>result\<close> and \<open>capitalize_next\<close>.\<close>

definition to_title_body :: "nat \<Rightarrow> char_t \<Rightarrow> char_t fstring \<times> bool \<Rightarrow> char_t fstring \<times> bool" where
  "to_title_body Cap ch st =
     (case st of (result, capitalize_next) \<Rightarrow>
        if is_whitespace ch then (fs_push_back Cap ch result, True)
        else if is_alpha ch
        then (fs_push_back Cap (if capitalize_next then char_to_upper ch else char_to_lower ch)
                result, False)
        else (fs_push_back Cap ch result, False))"

definition to_title :: "nat \<Rightarrow> char_t fstring \<Rightarrow> char_t fstring" where
  "to_title Cap str =
     fst (fold (\<lambda>i. to_title_body Cap (fs_data str ! i)) [0..<fs_size str]
            (fstring_default Cap, True))"

text \<open>The same scan on a plain list of units, used in the proofs.\<close>

fun title_units :: "bool \<Rightarrow> char_t list \<Rightarrow> char_t list" where
  "title_units cap [] = []"
| "title_units cap (c # cs) =
     (if is_whitespace c then c # title_units True cs
      else if is_alpha c then (if cap then char_to_upper c else char_to_lower c) # title_units False cs
      else c # title_units False cs)"


section \<open>Numeric codec (zuu/fmt/core.hpp)\<close>

text \<open>An integer type \<open>T\<close> is given by its width in bits and its signedness; a value of
  the type, signed or unsigned, is an \<open>int\<close> in its range. \<open>int\<close> is taken to have 32 bits: a narrower operand
  is promoted to \<open>int\<close> before arithmetic, and storing the result in a narrower type
  wraps it. Overflow of signed arithmetic at 32 bits or more is undefined behaviour,
  reported by the model as an error value.\<close>

datatype undefined_behaviour = SignedOverflow

definition in_signed :: "nat \<Rightarrow> int \<Rightarrow> bool" where
  "in_signed w x \<longleftrightarrow> - (2 ^ (w - 1)) \<le> x \<and> x < 2 ^ (w - 1)"

definition in_range :: "nat \<Rightarrow> bool \<Rightarrow> int \<Rightarrow> bool" where
  "in_range w is_signed x \<longleftrightarrow> (if is_signed then in_signed w x else 0 \<le> x \<and> x < 2 ^ w)"

text \<open>Conversion to the type: modular, as C++20 defines it.\<close>

definition convert :: "nat \<Rightarrow> bool \<Rightarrow> int \<Rightarrow> int" where
  "convert w is_signed x =
     (if is_signed then (x + 2 ^ (w - 1)) mod 2 ^ w - 2 ^ (w - 1) else x mod 2 ^ w)"

text \<open>The width in which an arithmetic operator on an operand of width \<open>w\<close> and an
  \<open>int\<close> computes, and whether it computes signed.\<close>

definition arith_width :: "nat \<Rightarrow> nat" where
  "arith_width w = max w 32"

definition arith_signed :: "nat \<Rightarrow> bool \<Rightarrow> bool" where
  "arith_signed w is_signed \<longleftrightarrow> w < 32 \<or> is_signed"

text \<open>The result of one arithmetic operator whose mathematical value is \<open>x\<close>.\<close>

definition arith :: "nat \<Rightarrow> bool \<Rightarrow> int \<Rightarrow> undefined_behaviour + int" where
  "arith w is_signed x =
     (if arith_signed w is_signed
      then (if in_signed (arith_width w) x then Inr x else Inl SignedOverflow)
      else Inr (x mod 2 ^ arith_width w))"

text \<open>\<open>std::numeric_limits<T>::digits10\<close>: the largest \<open>d\<close> with \<open>10 ^ d \<le> 2 ^ digits\<close>,
  one less than the number of decimal digits of \<open>2 ^ digits\<close>, where \<open>digits\<close> is the
  number of value bits.\<close>

function decimal_length :: "int \<Rightarrow> nat" where
  "decimal_length n = (if n < 10 then 1 else Suc (decimal_length (n div 10)))"
  by pat_completeness auto
termination
  by (relation "measure (\<lambda>n. nat n)") auto

declare decimal_length.simps [simp del]

definition digits10 :: "nat \<Rightarrow> bool \<Rightarrow> nat" where
  "digits10 w is_signed = decimal_length (2 ^ (if is_signed then w - 1 else w)) - 1"

subsection \<open>\<open>formatter<T>::format\<close> for an integral \<open>T\<close>\<close>

text \<open>The loop \<open>while (uvalue > 0) { buffer[pos++] = '0' + uvalue % 10; uvalue /= 10; }\<close>.\<close>

function format_digits :: "int \<Rightarrow> char_t list \<Rightarrow> nat \<Rightarrow> char_t list \<times> nat" where
  "format_digits uvalue buffer pos =
     (if uvalue > 0
      then format_digits (uvalue div 10)
             (buffer[pos := of_char CHR ''0'' + of_int (uvalue mod 10)]) (pos + 1)
      else (buffer, pos))"
  by pat_completeness auto
termination
  by (relation "measure (\<lambda>(uvalue, buffer, pos). nat uvalue)") auto

declare format_digits.simps [simp del]

text \<open>The loop \<open>while (pos > 0) result.push_back(buffer[--pos])\<close>.\<close>

fun format_copy :: "nat \<Rightarrow> char_t list \<Rightarrow> nat \<Rightarrow> char_t fstring \<Rightarrow> char_t fstring" where
  "format_copy Cap buffer 0 result = result"
| "format_copy Cap buffer (Suc pos) result =
     format_copy Cap buffer pos (fs_push_back Cap (buffer ! pos) result)"

definition format_int :: "nat \<Rightarrow> bool \<Rightarrow> int \<Rightarrow> char_t fstring" where
  "format_int w is_signed v =
     (let max_digits = digits10 w is_signed + 3;
          result = fstring_default max_digits
      in if v = 0 then fs_push_back max_digits (of_char CHR ''0'') result
         else (let negative = (is_signed \<and> v < 0);
                   uvalue = (if negative then ((- (v + 1)) mod 2 ^ w + 1) mod 2 ^ w
                             else v mod 2 ^ w);
                   (buffer, pos) = format_digits uvalue (replicate max_digits 0) 0;
                   result = (if negative then fs_push_back max_digits (of_char CHR ''-'') result
                             else result)
               in format_copy max_digits buffer pos result))"

subsection \<open>\<open>parse_int\<close>\<close>

text \<open>The value \<open>digit\<close> the loop body computes for a unit, \<open>-1\<close> for no digit.\<close>

definition digit_of :: "char_t \<Rightarrow> int" where
  "digit_of ch =
     (if ch \<ge> of_char CHR ''0'' \<and> ch \<le> of_char CHR ''9'' then uint (ch - of_char CHR ''0'')
      else if ch \<ge> of_char CHR ''a'' \<and> ch \<le> of_char CHR ''z''
      then 10 + uint (ch - of_char CHR ''a'')
      else if ch \<ge> of_char CHR ''A'' \<and> ch \<le> of_char CHR ''Z''
      then 10 + uint (ch - of_char CHR ''A'')
      else - 1)"

text \<open>The statement \<open>result = result * base + digit\<close>: a product and a sum, then the
  conversion to \<open>IntT\<close>.\<close>

definition parse_accumulate ::
  "nat \<Rightarrow> bool \<Rightarrow> int \<Rightarrow> int \<Rightarrow> int \<Rightarrow> undefined_behaviour + int" where
  "parse_accumulate w is_signed result base digit =
     (case arith w is_signed (result * base) of
        Inl e \<Rightarrow> Inl e
      | Inr p \<Rightarrow>
          (case arith w is_signed (p + digit) of
             Inl e \<Rightarrow> Inl e
           | Inr r \<Rightarrow> Inr (convert w is_signed r)))"

text \<open>The loop \<open>for (; i < str.size(); ++i)\<close> with its \<open>break\<close>.\<close>

function parse_loop ::
  "nat \<Rightarrow> bool \<Rightarrow> int \<Rightarrow> char_t fstring \<Rightarrow> nat \<Rightarrow> int \<Rightarrow> undefined_behaviour + int" where
  "parse_loop w is_signed base str i result =
     (if i < fs_size str
      then (let digit = digit_of (fs_data str ! i)
            in if digit < 0 \<or> digit \<ge> base then Inr result
               else (case parse_accumulate w is_signed result base digit of
                       Inl e \<Rightarrow> Inl e
                     | Inr r \<Rightarrow> parse_loop w is_signed base str (i + 1) r))
      else Inr result)"
  by pat_completeness auto
termination
  by (relation "measure (\<lambda>(w, is_signed, base, str, i, result). fs_size str - i)") auto

declare parse_loop.simps [simp del]

definition parse_int :: "nat \<Rightarrow> bool \<Rightarrow> char_t fstring \<Rightarrow> int \<Rightarrow> undefined_behaviour + int" where
  "parse_int w is_signed str base =
     (if fs_empty str then Inr 0
      else (let negative = (is_signed \<and> fs_data str ! 0 = of_char CHR ''-'');
                i = (if is_signed \<and> (fs_data str ! 0 = of_char CHR ''-''
                                      \<or> fs_data str ! 0 = of_char CHR ''+'')
                     then 1 else 0)
            in case parse_loop w is_signed base str i 0 of
                 Inl e \<Rightarrow> Inl e
               | Inr result \<Rightarrow>
                   (if negative
                    then (case arith w is_signed (- result) of
                            Inl e \<Rightarrow> Inl e
                          | Inr r \<Rightarrow> Inr (convert w is_signed r))
                    else Inr result)))"


subsection \<open>Decimal digits, used in the proofs\<close>

text \<open>The decimal digits of a positive number, least significant first, and the unit
  that \<open>format\<close> writes for a digit.\<close>

function lsb_digits :: "int \<Rightarrow> int list" where
  "lsb_digits u = (if u > 0 then (u mod 10) # lsb_digits (u div 10) else [])"
  by pat_completeness auto
termination
  by (relation "measure (\<lambda>u. nat u)") auto

declare lsb_digits.simps [simp del]

definition digit_unit :: "int \<Rightarrow> char_t" where
  "digit_unit d = of_char CHR ''0'' + of_int d"


text \<open>The largest value of the type; the arithmetic of the type is exact on \<open>0\<close> up to it.\<close>

definition max_value :: "nat \<Rightarrow> bool \<Rightarrow> int" where
  "max_value w is_signed = (if is_signed then 2 ^ (w - 1) - 1 else 2 ^ w - 1)"


section \<open>Inputs of the worked examples\<close>

definition comma :: char_t where
  "comma = of_char CHR '',''"

text \<open>Seventeen one-letter tokens in a buffer of capacity 64.\<close>

definition seventeen :: "char_t fstring" where
  "seventeen = fstring_ptr_len 64 (Some (units ''a,b,c,d,e,f,g,h,i,j,k,l,m,n,o,p,q'')) 33"


section \<open>Verification: appending to a buffer\<close>

lemma length_copy_n:
  "off + n \<le> length dst \<Longrightarrow> n \<le> length src \<Longrightarrow> length (copy_n src n off dst) = length dst"
  by (simp add: copy_n_def)

lemma length_fill_n:
  "off + n \<le> length dst \<Longrightarrow> length (fill_n dst off n ch) = length dst"
  by (simp add: fill_n_def)

lemma take_copy_n:
  "off + n \<le> length dst \<Longrightarrow> n \<le> length src \<Longrightarrow>
   take (off + n) (copy_n src n off dst) = take off dst @ take n src"
  by (simp add: copy_n_def)

lemma take_fill_n:
  "off + n \<le> length dst \<Longrightarrow> take (off + n) (fill_n dst off n ch) = take off dst @ replicate n ch"
  by (simp add: fill_n_def)

lemma fs_append_view:
  assumes "fs_inv Cap s" "n \<le> length src"
  shows "fs_view (fs_append Cap (Some src) n s) = fs_view s @ take (min n (available Cap s)) src"
proof (cases "full Cap s")
  case True
  then show ?thesis by (simp add: fs_append_def available_def full_def)
next
  case False
  define k where "k = min n (available Cap s)"
  have k: "fs_size s + k \<le> length (fs_data s)" "k \<le> length src"
    using assms by (auto simp: k_def fs_inv_def available_def)
  have "fs_view (fs_append Cap (Some src) n s)
        = take (fs_size s + k) ((copy_n src k (fs_size s) (fs_data s))[fs_size s + k := 0])"
    using False by (simp add: fs_append_def fs_view_def Let_def set_null_terminator_def k_def)
  also have "\<dots> = take (fs_size s) (fs_data s) @ take k src"
    using k by (simp add: take_copy_n)
  finally show ?thesis by (simp add: fs_view_def k_def)
qed

lemma fs_append_size:
  "fs_size (fs_append Cap (Some src) n s) = fs_size s + min n (available Cap s)"
  by (auto simp: fs_append_def full_def available_def Let_def set_null_terminator_def)

lemma fs_append_inv:
  assumes "fs_inv Cap s" "n \<le> length src"
  shows "fs_inv Cap (fs_append Cap (Some src) n s)"
  using assms
  by (auto simp: fs_inv_def fs_append_def full_def available_def Let_def
      set_null_terminator_def length_copy_n)

lemma string_append_fst:
  "zs_len t \<le> N \<Longrightarrow> fst (string_append N (Some src) n t) = min n (string_available N t)"
  by (auto simp: string_append_def string_available_def Let_def)

lemma string_append_len:
  "zs_len t \<le> N \<Longrightarrow> zs_len (snd (string_append N (Some src) n t)) = zs_len t + min n (string_available N t)"
  by (auto simp: string_append_def string_available_def Let_def)

lemma string_append_view:
  assumes "str_inv N t" "n \<le> length src"
  shows "str_view (snd (string_append N (Some src) n t)) = str_view t @ take (min n (string_available N t)) src"
proof (cases "n = 0 \<or> zs_len t \<ge> N")
  case True
  then show ?thesis by (auto simp: string_append_def string_available_def)
next
  case False
  define k where "k = min n (string_available N t)"
  have k: "zs_len t + k \<le> length (zs_data t)" "k \<le> length src"
    using assms by (auto simp: k_def str_inv_def string_available_def)
  have "str_view (snd (string_append N (Some src) n t))
        = take (zs_len t + k) ((copy_n src k (zs_len t) (zs_data t))[zs_len t + k := 0])"
    using False
    by (simp add: string_append_def str_view_def Let_def memcpy_string_def k_def
        string_available_def)
  also have "\<dots> = take (zs_len t) (zs_data t) @ take k src"
    using k by (simp add: take_copy_n)
  finally show ?thesis by (simp add: str_view_def k_def)
qed


text \<open>
  Claim C2, as amended. For a buffer with \<open>available() = A\<close> and a source holding at
  least \<open>n\<close> units, \<open>append(src, n)\<close> copies exactly \<open>min(n, A)\<close> units onto the
  end, in both classes; when \<open>n > A\<close> the buffer is full afterwards.
  \<open>zuu::string::append\<close> returns that count. \<open>basic_fstring::append\<close> returns the
  buffer itself (\<open>*this\<close>); there the count is the growth of \<open>size()\<close>.
\<close>

theorem append_clamps:
  assumes "fs_inv Cap s" and "str_inv N t" and "n \<le> length src"
  shows "fs_view (fs_append Cap (Some src) n s) = fs_view s @ take (min n (available Cap s)) src
       \<and> fs_size (fs_append Cap (Some src) n s) = fs_size s + min n (available Cap s)
       \<and> (n > available Cap s \<longrightarrow> full Cap (fs_append Cap (Some src) n s))
       \<and> fst (string_append N (Some src) n t) = min n (string_available N t)
       \<and> str_view (snd (string_append N (Some src) n t))
           = str_view t @ take (min n (string_available N t)) src
       \<and> zs_len (snd (string_append N (Some src) n t)) = zs_len t + min n (string_available N t)
       \<and> (n > string_available N t \<longrightarrow> zs_len (snd (string_append N (Some src) n t)) = N)"
proof -
  have szt: "zs_len t \<le> N" using assms(2) by (simp add: str_inv_def)
  have szs: "fs_size s \<le> Cap" using assms(1) by (simp add: fs_inv_def)
  have a: "n > available Cap s \<longrightarrow> full Cap (fs_append Cap (Some src) n s)"
    using szs by (auto simp: full_def fs_append_size available_def)
  have b: "n > string_available N t \<longrightarrow> zs_len (snd (string_append N (Some src) n t)) = N"
    using szt by (auto simp: string_append_len string_available_def)
  show ?thesis
    using fs_append_view[OF assms(1,3)] fs_append_size string_append_fst[OF szt]
      string_append_view[OF assms(2,3)] string_append_len[OF szt] a b
    by blast
qed


theorem append_clamps_witness:
  "fs_inv 5 (fstring_literal 5 (literal ''ab''))
   \<and> str_inv 5 (string_array 5 (literal ''ab''))
   \<and> (5::nat) \<le> length (units ''cdefg'')
   \<and> fs_view (fs_append 5 (Some (units ''cdefg'')) 5 (fstring_literal 5 (literal ''ab'')))
       = units ''abcde''
   \<and> full 5 (fs_append 5 (Some (units ''cdefg'')) 5 (fstring_literal 5 (literal ''ab'')))
   \<and> fst (string_append 5 (Some (units ''cdefg'')) 5 (string_array 5 (literal ''ab''))) = 3"
proof -
  have h1: "fs_inv 5 (fstring_literal 5 (literal ''ab''))" by code_simp
  have h2: "str_inv 5 (string_array 5 (literal ''ab''))" by code_simp
  have h3: "(5::nat) \<le> length (units ''cdefg'')" by code_simp
  have e1: "fs_view (fstring_literal 5 (literal ''ab''))
              @ take (min 5 (available 5 (fstring_literal 5 (literal ''ab'')))) (units ''cdefg'')
            = units ''abcde''" by code_simp
  have e2: "available 5 (fstring_literal 5 (literal ''ab'')) < 5" by code_simp
  have e3: "min 5 (string_available 5 (string_array 5 (literal ''ab''))) = 3" by code_simp
  show ?thesis
    using append_clamps [OF h1 h2 h3] h1 h2 h3 e1 e2 e3 by simp
qed

text \<open>
  The claim as stated fails on \<open>basic_fstring\<close>: at capacity 5, appending five units to
  \<open>"ab"\<close> hands back the buffer \<open>"abcde"\<close>, not the count 3 that
  \<open>zuu::string::append\<close> returns at the same input.
\<close>

theorem append_returns_buffer_counterexample:
  "fs_append 5 (Some (units ''cdefg'')) 5 (fstring_literal 5 (literal ''ab''))
     = \<lparr>fs_data = literal ''abcde'', fs_size = 5\<rparr>
   \<and> string_append 5 (Some (units ''cdefg'')) 5 (string_array 5 (literal ''ab''))
     = (3, \<lparr>zs_data = literal ''abcde'', zs_len = 5\<rparr>)"
  by code_simp

section \<open>Verification: \<open>push_back\<close> on a full buffer\<close>

text \<open>
  Claim C8, as amended. On a full buffer \<open>push_back(ch)\<close> leaves the array and the size
  as they are, in both classes, and nothing is thrown. \<open>zuu::string::push_back\<close>
  returns \<open>false\<close> then and \<open>true\<close> when the unit was stored;
  \<open>basic_fstring::push_back\<close> returns nothing, so the caller sees the failure only in
  the unchanged \<open>size()\<close>.
\<close>

theorem push_back_full:
  "(full Cap s \<longrightarrow> fs_push_back_call Cap ch s = ((), s))
   \<and> (zs_len t \<ge> N \<longrightarrow> string_push_back N ch t = (False, t))
   \<and> (zs_len t < N \<longrightarrow> fst (string_push_back N ch t))"
  by (simp add: fs_push_back_call_def fs_push_back_def string_push_back_def Let_def)


theorem push_back_full_witness:
  "full 5 (fstring_literal 5 (literal ''12345''))
   \<and> fs_push_back_call 5 (of_char CHR ''6'') (fstring_literal 5 (literal ''12345''))
       = ((), fstring_literal 5 (literal ''12345''))
   \<and> fs_view (fstring_literal 5 (literal ''12345'')) = units ''12345''
   \<and> zs_len (string_array 5 (literal ''12345'')) \<ge> 5
   \<and> string_push_back 5 (of_char CHR ''6'') (string_array 5 (literal ''12345''))
       = (False, string_array 5 (literal ''12345''))
   \<and> zs_len (string_array 5 (literal ''1234'')) < 5
   \<and> fst (string_push_back 5 (of_char CHR ''6'') (string_array 5 (literal ''1234'')))"
proof -
  have h1: "full 5 (fstring_literal 5 (literal ''12345''))" by code_simp
  have h2: "zs_len (string_array 5 (literal ''12345'')) \<ge> 5" by code_simp
  have h3: "zs_len (string_array 5 (literal ''1234'')) < 5" by code_simp
  have e: "fs_view (fstring_literal 5 (literal ''12345'')) = units ''12345''" by code_simp
  show ?thesis
    using push_back_full [where Cap = 5 and s = "fstring_literal 5 (literal ''12345'')"
        and ch = "of_char CHR ''6''" and t = "string_array 5 (literal ''12345'')" and N = 5]
      push_back_full [where Cap = 5 and s = "fstring_literal 5 (literal ''12345'')"
        and ch = "of_char CHR ''6''" and t = "string_array 5 (literal ''1234'')" and N = 5]
      h1 h2 h3 e
    by blast
qed

text \<open>
  The claim as stated fails on \<open>basic_fstring\<close>: the value its \<open>push_back\<close> returns on
  the full buffer \<open>"12345"\<close> is the value it returns on \<open>"1234"\<close>, where the unit is
  stored. The return value reports nothing.
\<close>

theorem push_back_void_counterexample:
  "fst (fs_push_back_call 5 (of_char CHR ''6'') (fstring_literal 5 (literal ''12345'')))
     = fst (fs_push_back_call 5 (of_char CHR ''6'') (fstring_literal 5 (literal ''1234'')))
   \<and> fs_view (snd (fs_push_back_call 5 (of_char CHR ''6'') (fstring_literal 5 (literal ''1234''))))
     = units ''12346''
   \<and> fs_view (snd (fs_push_back_call 5 (of_char CHR ''6'') (fstring_literal 5 (literal ''12345''))))
     = units ''12345''"
  by code_simp

section \<open>Verification: concatenation with a character array\<close>

lemma fs_inv_default: "fs_inv Cap (fstring_default Cap)"
  by (simp add: fs_inv_def fstring_default_def)

lemma plus_first_inv:
  assumes "fs_inv Cap s"
  shows "fs_inv (Cap + N) (fs_append (Cap + N) (Some (fs_data s)) (fs_size s) (fstring_default (Cap + N)))"
  using assms by (intro fs_append_inv fs_inv_default) (simp add: fs_inv_def)

lemma plus_first_view:
  assumes "fs_inv Cap s"
  shows "fs_view (fs_append (Cap + N) (Some (fs_data s)) (fs_size s) (fstring_default (Cap + N))) = fs_view s"
proof -
  have "fs_size s \<le> length (fs_data s)" using assms by (simp add: fs_inv_def)
  from fs_append_view[OF fs_inv_default this, of "Cap + N"]
  show ?thesis using assms
    by (simp add: fs_view_def fstring_default_def available_def fs_inv_def)
qed

lemma plus_array_general:
  assumes "fs_inv Cap s"
  shows "fs_view (fs_plus_array Cap s rhs) = fs_view s @ rhs"
    and "fs_size (fs_plus_array Cap s rhs) = fs_size s + length rhs"
    and "fs_view (fs_plus_assign_array Cap s rhs) = take Cap (fs_view s @ rhs)"
    and "fs_size (fs_plus_assign_array Cap s rhs) = min (fs_size s + length rhs) Cap"
proof -
  define N where "N = length rhs"
  define r where "r = fs_append (Cap + N) (Some (fs_data s)) (fs_size s) (fstring_default (Cap + N))"
  have sz: "fs_size s \<le> Cap" "length (fs_view s) = fs_size s"
    using assms by (auto simp: fs_inv_def fs_view_def)
  have rsz: "fs_size r = fs_size s"
    using sz by (simp add: r_def fs_append_size available_def fstring_default_def)
  have rv: "fs_view r = fs_view s"
    unfolding r_def by (rule plus_first_view[OF assms])
  have ri: "fs_inv (Cap + N) r"
    unfolding r_def by (rule plus_first_inv[OF assms])
  have av: "min N (available (Cap + N) r) = N"
    using sz by (simp add: available_def rsz)
  have p: "fs_plus_array Cap s rhs = fs_append (Cap + N) (Some rhs) N r"
    by (simp add: fs_plus_array_def Let_def N_def r_def)
  have "fs_view (fs_append (Cap + N) (Some rhs) N r) = fs_view r @ take (min N (available (Cap + N) r)) rhs"
    by (rule fs_append_view[OF ri]) (simp add: N_def)
  then show "fs_view (fs_plus_array Cap s rhs) = fs_view s @ rhs"
    unfolding p av rv by (simp add: N_def)
  show "fs_size (fs_plus_array Cap s rhs) = fs_size s + length rhs"
    unfolding p fs_append_size av rsz by (simp add: N_def)
  have "fs_view (fs_append Cap (Some rhs) N s) = fs_view s @ take (min N (available Cap s)) rhs"
    by (rule fs_append_view[OF assms]) (simp add: N_def)
  then show "fs_view (fs_plus_assign_array Cap s rhs) = take Cap (fs_view s @ rhs)"
    using sz by (auto simp: fs_plus_assign_array_def available_def min_def N_def)
  show "fs_size (fs_plus_assign_array Cap s rhs) = min (fs_size s + length rhs) Cap"
    using sz by (auto simp: fs_plus_assign_array_def fs_append_size available_def)
qed


text \<open>
  Claim C10. \<open>operator+\<close> and \<open>operator+=\<close> with a character array of extent \<open>N\<close>, a
  literal's units followed by its zero terminator, append all \<open>N\<close> units. The result of
  \<open>operator+\<close> has size \<open>lhs.size() + N\<close> and its content ends with the literal's
  zero; for \<open>operator+=\<close> the size and the content are clamped to the capacity.
\<close>

theorem concat_array_appends_terminator:
  assumes "fs_inv Cap s"
  shows "fs_view (fs_plus_array Cap s (lit @ [0])) = fs_view s @ lit @ [0]
       \<and> fs_size (fs_plus_array Cap s (lit @ [0])) = fs_size s + length (lit @ [0])
       \<and> fs_view (fs_plus_assign_array Cap s (lit @ [0])) = take Cap (fs_view s @ lit @ [0])
       \<and> fs_size (fs_plus_assign_array Cap s (lit @ [0])) = min (fs_size s + length (lit @ [0])) Cap"
  using plus_array_general[OF assms, of "lit @ [0]"] by blast


theorem concat_array_appends_terminator_witness:
  "fs_inv 32 (fstring_literal 32 (literal ''hello''))
   \<and> fs_view (fs_plus_array 32 (fstring_literal 32 (literal ''hello'')) (literal ''!''))
       = units ''hello!'' @ [0]
   \<and> fs_size (fs_plus_array 32 (fstring_literal 32 (literal ''hello'')) (literal ''!'')) = 7
   \<and> fs_view (fs_plus_assign_array 32 (fstring_literal 32 (literal ''hello'')) (literal ''!''))
       = units ''hello!'' @ [0]
   \<and> fs_size (fs_plus_assign_array 32 (fstring_literal 32 (literal ''hello'')) (literal ''!'')) = 7"
proof -
  have h: "fs_inv 32 (fstring_literal 32 (literal ''hello''))" by code_simp
  have l: "literal ''!'' = units ''!'' @ [0]" by (simp add: literal_def)
  have e1: "fs_view (fstring_literal 32 (literal ''hello'')) @ units ''!'' @ [0]
            = units ''hello!'' @ [0]" by code_simp
  have e2: "fs_size (fstring_literal 32 (literal ''hello'')) + length (units ''!'' @ [0]) = 7"
    by code_simp
  have e3: "take 32 (units ''hello!'' @ [0]) = units ''hello!'' @ [0]" by code_simp
  show ?thesis
    using concat_array_appends_terminator [OF h, of "units ''!''"] h e1 e2 e3
    unfolding l by simp
qed

section \<open>Verification: stream output\<close>

text \<open>A buffer whose content holds no zero unit is written whole.\<close>

lemma stream_out_no_zero:
  assumes "fs_inv Cap s" "0 \<notin> set (fs_view s)"
  shows "fs_stream_out os s = os @ fs_view s"
proof -
  have d: "fs_data s = fs_view s @ 0 # drop (Suc (fs_size s)) (fs_data s)"
    using assms(1) id_take_nth_drop[of "fs_size s" "fs_data s"]
    by (simp add: fs_inv_def fs_view_def)
  have "takeWhile (\<lambda>c. c \<noteq> 0) (fs_view s @ 0 # drop (Suc (fs_size s)) (fs_data s)) = fs_view s"
    using assms(2) by (subst takeWhile_append2) auto
  then show ?thesis using d by (simp add: fs_stream_out_def ostream_insert_cstr_def)
qed


text \<open>
  Claim C9 fails on the code. The buffer built from the three units \<open>a\<close>, zero, \<open>b\<close>
  with length 3 has \<open>size() = 3\<close>, and \<open>operator<<\<close> writes one unit: it passes
  \<open>data()\<close> to the stream as a null-terminated string, so the output stops at the
  first zero unit of the content. The same happens to a buffer grown by \<open>+=\<close> with
  literals, whose terminators became content.
\<close>

theorem stream_out_stops_at_zero:
  "fs_size (fstring_ptr_len 8 (Some [97, 0, 98 :: char_t]) 3) = 3
   \<and> fs_stream_out [] (fstring_ptr_len 8 (Some [97, 0, 98 :: char_t]) 3) = [97]
   \<and> fs_size (fs_plus_assign_array 8
        (fs_plus_assign_array 8 (fstring_literal 8 (literal ''a'')) (literal ''b''))
        (literal ''c'')) = 5
   \<and> fs_stream_out [] (fs_plus_assign_array 8
        (fs_plus_assign_array 8 (fstring_literal 8 (literal ''a'')) (literal ''b''))
        (literal ''c'')) = units ''ab''"
  by code_simp

section \<open>Verification: \<open>split\<close> and \<open>rsplit\<close>\<close>

lemma fold_index:
  "n \<le> length xs \<Longrightarrow> fold (\<lambda>i. f (xs ! i)) [0..<n] a = fold f (take n xs) a"
  by (induction n) (simp_all add: take_Suc_conv_app_nth)

lemma tok_scan:
  "tok_final (fold (tok_step d) xs (ts, cur)) =
     ts @ (if cur = [] then split_tokens d xs
             else (cur @ takeWhile (\<lambda>c. c \<noteq> d) xs) # split_tokens d (dropWhile (\<lambda>c. c \<noteq> d) xs))"
proof (induction xs arbitrary: ts cur)
  case Nil
  then show ?case by (simp add: tok_final_def)
next
  case (Cons x xs)
  show ?case
  proof (cases "x = d")
    case True
    then show ?thesis using Cons.IH[of "ts @ [cur]" "[]"] Cons.IH[of "ts" "[]"]
      by (auto simp: tok_step_def)
  next
    case False
    then show ?thesis using Cons.IH[of "ts" "cur @ [x]"]
      by (auto simp: tok_step_def)
  qed
qed

lemma tok_scan_init: "tok_final (fold (tok_step d) xs ([], [])) = split_tokens d xs"
  using tok_scan[of d xs "[]" "[]"] by simp

lemma fs_empty_view: "fs_inv Cap s \<Longrightarrow> fs_empty s \<longleftrightarrow> fs_view s = []"
  by (auto simp: fs_inv_def fs_empty_def fs_view_def)

lemma fs_clear_inv: "fs_inv Cap s \<Longrightarrow> fs_inv Cap (fs_clear s)"
  by (simp add: fs_inv_def fs_clear_def)

lemma fs_clear_view: "fs_view (fs_clear s) = []"
  by (simp add: fs_view_def fs_clear_def)

lemma fs_push_back_inv: "fs_inv Cap s \<Longrightarrow> fs_inv Cap (fs_push_back Cap ch s)"
  by (auto simp: fs_inv_def fs_push_back_def full_def set_null_terminator_def)

lemma fs_push_back_view:
  "fs_inv Cap s \<Longrightarrow> fs_size s < Cap \<Longrightarrow> fs_view (fs_push_back Cap ch s) = fs_view s @ [ch]"
  by (simp add: fs_inv_def fs_push_back_def full_def set_null_terminator_def fs_view_def
      take_Suc_conv_app_nth)

lemma fs_push_back_size: "fs_size (fs_push_back Cap ch s) \<le> fs_size s + 1"
  by (simp add: fs_push_back_def set_null_terminator_def)

lemma fs_push_back_size_eq:
  "fs_size s < Cap \<Longrightarrow> fs_size (fs_push_back Cap ch s) = fs_size s + 1"
  by (simp add: fs_push_back_def set_null_terminator_def full_def)

lemma list_all_update:
  "list_all P xs \<Longrightarrow> P x \<Longrightarrow> list_all P (xs[i := x])"
  using set_update_subset_insert[of xs i x] by (auto simp: list_all_iff)

lemma split_push_parts_inv:
  "list_all (fs_inv Cap) (sr_parts r) \<Longrightarrow> fs_inv Cap p \<Longrightarrow>
   list_all (fs_inv Cap) (sr_parts (split_push p r))"
  by (simp add: split_push_def list_all_update)

lemma sr_tokens_push:
  "sr_count r < length (sr_parts r) \<Longrightarrow> sr_tokens (split_push p r) = sr_tokens r @ [fs_view p]"
  by (simp add: sr_tokens_def split_push_def take_Suc_conv_app_nth)

lemma split_body_sim:
  assumes "split_rel Cap MaxParts (result, current) (ts, cur)" "fs_size current < Cap"
  shows "split_rel Cap MaxParts (split_char_body Cap MaxParts d x (result, current))
           (tok_step d x (ts, cur))
         \<and> fs_size (snd (split_char_body Cap MaxParts d x (result, current))) \<le> fs_size current + 1"
proof -
  have inv: "fs_inv Cap current" and len: "length (sr_parts result) = MaxParts"
    and tk: "sr_tokens result = take MaxParts ts"
    and la: "list_all (fs_inv Cap) (sr_parts result)"
    and cnt: "sr_count result = min MaxParts (length ts)"
    and cur: "length ts < MaxParts \<Longrightarrow> fs_view current = cur"
    using assms(1) by (auto simp: split_rel_def)
  have nf: "\<not> full Cap current" using assms(2) by (simp add: full_def)
  show ?thesis
  proof (cases "x = d")
    case False
    then show ?thesis
      using inv len la tk cnt cur nf assms(2)
      by (auto simp: split_rel_def split_char_body_def tok_step_def fs_push_back_inv
          fs_push_back_view fs_push_back_size_eq)
  next
    case True
    show ?thesis
    proof (cases "length ts < MaxParts")
      case lt: True
      then have c: "sr_count result = length ts" "sr_count result < MaxParts"
        using cnt by auto
      have v: "fs_view current = cur" using cur lt by simp
      show ?thesis
      proof (cases "fs_empty current")
        case True
        then have "cur = []" using v fs_empty_view[OF inv] by simp
        then show ?thesis using True \<open>x = d\<close> assms(1)
          by (simp add: split_char_body_def tok_step_def)
      next
        case False
        then have ne: "cur \<noteq> []" using v fs_empty_view[OF inv] by simp
        have p1: "sr_tokens (split_push current result) = ts @ [cur]"
          using c len tk lt v by (simp add: sr_tokens_push)
        have p2: "sr_count (split_push current result) = Suc (length ts)"
          using c by (simp add: split_push_def)
        have p3: "length (sr_parts (split_push current result)) = MaxParts"
          using len by (simp add: split_push_def)
        have p4: "fs_size (fs_clear current) = 0" by (simp add: fs_clear_def)
        have p5: "list_all (fs_inv Cap) (sr_parts (split_push current result))"
          by (rule split_push_parts_inv[OF la inv])
        show ?thesis using False \<open>x = d\<close> ne c lt inv
          by (simp add: split_char_body_def tok_step_def split_rel_def fs_clear_inv
              fs_clear_view p1 p2 p3 p4 p5)
      qed
    next
      case ge: False
      then have c: "sr_count result = MaxParts" using cnt by simp
      then show ?thesis using \<open>x = d\<close> ge inv len la tk
        by (auto simp: split_char_body_def tok_step_def split_rel_def)
    qed
  qed
qed

lemma split_fold_sim:
  assumes "split_rel Cap MaxParts st a" "fs_size (snd st) + length xs \<le> Cap"
  shows "split_rel Cap MaxParts (fold (split_char_body Cap MaxParts d) xs st)
           (fold (tok_step d) xs a)"
  using assms
proof (induction xs arbitrary: st a)
  case Nil
  then show ?case by simp
next
  case (Cons x xs)
  obtain result current where st: "st = (result, current)" by (cases st)
  obtain ts cur where a: "a = (ts, cur)" by (cases a)
  have lt: "fs_size current < Cap" using Cons.prems(2) st by simp
  from split_body_sim[OF Cons.prems(1)[unfolded st a] lt, of d x]
  have 1: "split_rel Cap MaxParts (split_char_body Cap MaxParts d x st) (tok_step d x a)"
    and 2: "fs_size (snd (split_char_body Cap MaxParts d x st)) \<le> fs_size current + 1"
    unfolding st a by auto
  have 3: "fs_size (snd (split_char_body Cap MaxParts d x st)) + length xs \<le> Cap"
    using 2 Cons.prems(2) st by simp
  show ?case using Cons.IH[OF 1 3] by simp
qed

lemma split_final_sim:
  assumes "split_rel Cap MaxParts (result, current) a"
  shows "sr_tokens (if \<not> fs_empty current \<and> sr_count result < MaxParts
                    then split_push current result else result) = take MaxParts (tok_final a)"
    and "sr_count (if \<not> fs_empty current \<and> sr_count result < MaxParts
                    then split_push current result else result) = min MaxParts (length (tok_final a))"
    and "length (sr_parts (if \<not> fs_empty current \<and> sr_count result < MaxParts
                    then split_push current result else result)) = MaxParts"
    and "list_all (fs_inv Cap) (sr_parts (if \<not> fs_empty current \<and> sr_count result < MaxParts
                    then split_push current result else result))"
proof -
  obtain ts cur where a: "a = (ts, cur)" by (cases a)
  have inv: "fs_inv Cap current" and len: "length (sr_parts result) = MaxParts"
    and tk: "sr_tokens result = take MaxParts ts"
    and la: "list_all (fs_inv Cap) (sr_parts result)"
    and cnt: "sr_count result = min MaxParts (length ts)"
    and cur: "length ts < MaxParts \<Longrightarrow> fs_view current = cur"
    using assms(1) by (auto simp: split_rel_def a)
  let ?r = "if \<not> fs_empty current \<and> sr_count result < MaxParts
                    then split_push current result else result"
  have "sr_tokens ?r = take MaxParts (tok_final a) \<and> sr_count ?r = min MaxParts (length (tok_final a))
     \<and> length (sr_parts ?r) = MaxParts"
  proof (cases "length ts < MaxParts")
    case True
    then have c: "sr_count result = length ts" "sr_count result < MaxParts"
      using cnt by auto
    have v: "fs_view current = cur" using cur True by simp
    show ?thesis
      using c v True len tk fs_empty_view[OF inv]
      by (auto simp: a tok_final_def sr_tokens_push) (simp_all add: split_push_def)
  next
    case False
    then show ?thesis using cnt len tk by (auto simp: a tok_final_def)
  qed
  then show "sr_tokens ?r = take MaxParts (tok_final a)"
    and "sr_count ?r = min MaxParts (length (tok_final a))"
    and "length (sr_parts ?r) = MaxParts" by auto
  show "list_all (fs_inv Cap) (sr_parts ?r)"
    using la inv by (simp add: split_push_parts_inv)
qed

lemma split_rel_init:
  "split_rel Cap MaxParts (split_result_default Cap MaxParts, fstring_default Cap) ([], [])"
  by (simp add: split_rel_def split_result_default_def sr_tokens_def fs_inv_default
      list_all_length) (simp add: fstring_default_def fs_view_def)

lemma split_char_tokens:
  assumes "fs_inv Cap str"
  shows "sr_tokens (split_char Cap MaxParts str d) = take MaxParts (split_tokens d (fs_view str))"
    and "sr_count (split_char Cap MaxParts str d) = min MaxParts (length (split_tokens d (fs_view str)))"
    and "length (sr_parts (split_char Cap MaxParts str d)) = MaxParts"
    and "list_all (fs_inv Cap) (sr_parts (split_char Cap MaxParts str d))"
proof -
  have le: "fs_size str \<le> length (fs_data str)" "fs_size str \<le> Cap"
    using assms by (auto simp: fs_inv_def)
  let ?st0 = "(split_result_default Cap MaxParts, fstring_default Cap) :: 'a split_result \<times> 'a fstring"
  let ?f = "fold (split_char_body Cap MaxParts d) (fs_view str) ?st0"
  have f: "fold (\<lambda>i. split_char_body Cap MaxParts d (fs_data str ! i)) [0..<fs_size str] ?st0 = ?f"
    using fold_index[OF le(1), of "split_char_body Cap MaxParts d"] by (simp add: fs_view_def)
  have "fs_size (snd ?st0) + length (fs_view str) \<le> Cap"
    using le by (simp add: fs_view_def fstring_default_def)
  from split_fold_sim[OF split_rel_init this, of d]
  have rel: "split_rel Cap MaxParts ?f (fold (tok_step d) (fs_view str) ([], []))" .
  obtain result current where rc: "?f = (result, current)" by (cases ?f)
  have sc: "split_char Cap MaxParts str d = (if \<not> fs_empty current \<and> sr_count result < MaxParts
                    then split_push current result else result)"
    unfolding split_char_def f rc by simp
  show "sr_tokens (split_char Cap MaxParts str d) = take MaxParts (split_tokens d (fs_view str))"
    and "sr_count (split_char Cap MaxParts str d) = min MaxParts (length (split_tokens d (fs_view str)))"
    and "length (sr_parts (split_char Cap MaxParts str d)) = MaxParts"
    and "list_all (fs_inv Cap) (sr_parts (split_char Cap MaxParts str d))"
    unfolding sc using split_final_sim[OF rel[unfolded rc]] by (simp_all only: tok_scan_init)
qed



lemma split_tokens_unfold:
  "split_tokens d xs =
     (if takeWhile (\<lambda>c. c \<noteq> d) xs = [] then split_tokens d (dropWhile (\<lambda>c. c \<noteq> d) xs)
      else takeWhile (\<lambda>c. c \<noteq> d) xs # split_tokens d (dropWhile (\<lambda>c. c \<noteq> d) xs))"
  by (cases xs) auto

lemma rtok_scan:
  "foldr (rtok_step d) xs ([], []) =
     (split_tokens d (dropWhile (\<lambda>c. c \<noteq> d) xs), takeWhile (\<lambda>c. c \<noteq> d) xs)"
proof (induction xs)
  case Nil
  then show ?case by simp
next
  case (Cons x xs)
  show ?case
  proof (cases "x = d")
    case True
    then show ?thesis using Cons.IH split_tokens_unfold[of d xs]
      by (simp add: rtok_step_def)
  next
    case False
    then show ?thesis using Cons.IH by (simp add: rtok_step_def)
  qed
qed

lemma rtok_scan_final: "rtok_final (foldr (rtok_step d) xs ([], [])) = split_tokens d xs"
  using split_tokens_unfold[of d xs] by (simp add: rtok_scan rtok_final_def)

lemma rtok_grow: "\<exists>extra. fst (foldr (rtok_step d) zs (ts, cur)) = extra @ ts"
proof (induction zs)
  case Nil
  then show ?case by simp
next
  case (Cons z zs)
  then obtain extra where e: "fst (foldr (rtok_step d) zs (ts, cur)) = extra @ ts" by blast
  obtain ts' cur' where f: "foldr (rtok_step d) zs (ts, cur) = (ts', cur')"
    by (cases "foldr (rtok_step d) zs (ts, cur)")
  have "ts' = extra @ ts" using e f by simp
  then have "fst (rtok_step d z (ts', cur')) = extra @ ts \<or> fst (rtok_step d z (ts', cur')) = (cur' # extra) @ ts"
    by (auto simp: rtok_step_def)
  then show ?case using f by auto
qed

lemma rsplit_rel_saturated:
  assumes "rsplit_rel Cap MaxParts st (ts, cur)" "MaxParts \<le> length ts"
  shows "rsplit_rel Cap MaxParts st (foldr (rtok_step d) zs (ts, cur))"
proof -
  obtain extra where e: "fst (foldr (rtok_step d) zs (ts, cur)) = extra @ ts"
    using rtok_grow[of d zs ts cur] by blast
  obtain ts' cur' where f: "foldr (rtok_step d) zs (ts, cur) = (ts', cur')"
    by (cases "foldr (rtok_step d) zs (ts, cur)")
  have t: "ts' = extra @ ts" using e f by simp
  show ?thesis using assms unfolding f t
    by (auto simp: rsplit_rel_def)
qed

lemma push_all:
  "fs_inv Cap r \<Longrightarrow> fs_size r + length cs \<le> Cap \<Longrightarrow>
   fs_inv Cap (fold (fs_push_back Cap) cs r) \<and> fs_view (fold (fs_push_back Cap) cs r) = fs_view r @ cs"
proof (induction cs arbitrary: r)
  case Nil
  then show ?case by simp
next
  case (Cons c cs)
  have lt: "fs_size r < Cap" using Cons.prems(2) by simp
  have 1: "fs_inv Cap (fs_push_back Cap c r)" by (rule fs_push_back_inv[OF Cons.prems(1)])
  have 2: "fs_size (fs_push_back Cap c r) + length cs \<le> Cap"
    using Cons.prems(2) by (simp add: fs_push_back_size_eq[OF lt])
  show ?case using Cons.IH[OF 1 2] fs_push_back_view[OF Cons.prems(1) lt] by simp
qed

lemma map_pred_index: "n \<le> length d \<Longrightarrow> map (\<lambda>j. d ! (j - 1)) [1..<n + 1] = take n d"
  by (induction n) (simp_all add: take_Suc_conv_app_nth)

lemma reversed_copy_correct:
  assumes "fs_inv Cap c"
  shows "fs_inv Cap (reversed_copy Cap c)" and "fs_view (reversed_copy Cap c) = rev (fs_view c)"
proof -
  have le: "fs_size c \<le> length (fs_data c)" "fs_size c \<le> Cap" using assms by (auto simp: fs_inv_def)
  have "reversed_copy Cap c
        = fold (fs_push_back Cap) (map (\<lambda>j. fs_data c ! (j - 1)) (rev [1..<fs_size c + 1])) (fstring_default Cap)"
    by (simp add: reversed_copy_def fold_map comp_def)
  also have "map (\<lambda>j. fs_data c ! (j - 1)) (rev [1..<fs_size c + 1])
             = rev (map (\<lambda>j. fs_data c ! (j - 1)) [1..<fs_size c + 1])"
    by (rule rev_map[symmetric])
  also have "\<dots> = rev (fs_view c)"
    by (simp only: map_pred_index[OF le(1)] fs_view_def)
  finally have rc: "reversed_copy Cap c = fold (fs_push_back Cap) (rev (fs_view c)) (fstring_default Cap)" .
  have "fs_size (fstring_default Cap :: 'a fstring) + length (rev (fs_view c)) \<le> Cap"
    using le by (simp add: fstring_default_def fs_view_def)
  from push_all[OF fs_inv_default this]
  show "fs_inv Cap (reversed_copy Cap c)" and "fs_view (reversed_copy Cap c) = rev (fs_view c)"
    unfolding rc by (simp_all add: fs_view_def fstring_default_def)
qed

lemma rsplit_body_sim:
  assumes "rsplit_rel Cap MaxParts (result, current) (ts, cur)" "sr_count result < MaxParts"
    "fs_size current < Cap"
  shows "rsplit_rel Cap MaxParts (rsplit_body Cap d x (result, current)) (rtok_step d x (ts, cur))
         \<and> fs_size (snd (rsplit_body Cap d x (result, current))) \<le> fs_size current + 1"
proof -
  have inv: "fs_inv Cap current" and len: "length (sr_parts result) = MaxParts"
    and tk: "sr_tokens result = take MaxParts (rev ts)"
    and la: "list_all (fs_inv Cap) (sr_parts result)"
    and cnt: "sr_count result = min MaxParts (length ts)"
    and cur: "length ts < MaxParts \<Longrightarrow> fs_view current = rev cur"
    using assms(1) by (auto simp: rsplit_rel_def)
  have lt: "length ts < MaxParts" and c: "sr_count result = length ts"
    using cnt assms(2) by auto
  have v: "fs_view current = rev cur" using cur lt by simp
  show ?thesis
  proof (cases "x = d")
    case False
    then show ?thesis
      using inv len la tk cnt v assms(3)
      by (auto simp: rsplit_rel_def rsplit_body_def rtok_step_def fs_push_back_inv
          fs_push_back_view fs_push_back_size_eq)
  next
    case True
    show ?thesis
    proof (cases "fs_empty current")
      case True
      then have "cur = []" using v fs_empty_view[OF inv] by simp
      then show ?thesis using True \<open>x = d\<close> assms(1)
        by (simp add: rsplit_body_def rtok_step_def)
    next
      case False
      then have ne: "cur \<noteq> []" using v fs_empty_view[OF inv] by simp
      have rv: "fs_view (reversed_copy Cap current) = cur"
        using reversed_copy_correct(2)[OF inv] v by simp
      have p1: "sr_tokens (split_push (reversed_copy Cap current) result) = rev ts @ [cur]"
        using c len tk lt rv by (simp add: sr_tokens_push)
      have p2: "sr_count (split_push (reversed_copy Cap current) result) = Suc (length ts)"
        using c by (simp add: split_push_def)
      have p3: "length (sr_parts (split_push (reversed_copy Cap current) result)) = MaxParts"
        using len by (simp add: split_push_def)
      have p4: "fs_size (fs_clear current) = 0" by (simp add: fs_clear_def)
      have p5: "list_all (fs_inv Cap) (sr_parts (split_push (reversed_copy Cap current) result))"
        by (rule split_push_parts_inv[OF la reversed_copy_correct(1)[OF inv]])
      show ?thesis using False \<open>x = d\<close> ne c lt inv
        by (simp add: rsplit_body_def rtok_step_def rsplit_rel_def fs_clear_inv
            fs_clear_view p1 p2 p3 p4 p5)
    qed
  qed
qed

lemma rsplit_loop_sim:
  assumes "rsplit_rel Cap MaxParts st a" "i \<le> fs_size str" "fs_size str \<le> length (fs_data str)"
    "fs_size (snd st) + i \<le> Cap"
  shows "rsplit_rel Cap MaxParts (rsplit_loop Cap MaxParts str d i st)
           (foldr (rtok_step d) (take i (fs_view str)) a)"
  using assms
proof (induction i arbitrary: st a)
  case 0
  then show ?case by (subst rsplit_loop.simps) simp
next
  case (Suc i)
  obtain result current where st: "st = (result, current)" by (cases st)
  obtain ts cur where a: "a = (ts, cur)" by (cases a)
  have ilt: "i < length (fs_view str)" using Suc.prems(2,3) by (simp add: fs_view_def)
  have nth: "fs_view str ! i = fs_data str ! i" using Suc.prems(2) by (simp add: fs_view_def)
  have tk: "take (Suc i) (fs_view str) = take i (fs_view str) @ [fs_data str ! i]"
    using take_Suc_conv_app_nth[OF ilt] nth by simp
  show ?case
  proof (cases "sr_count result < MaxParts")
    case True
    have lt: "fs_size current < Cap" using Suc.prems(4) st by simp
    from rsplit_body_sim[OF Suc.prems(1)[unfolded st a] True lt, of d "fs_data str ! i"]
    have 1: "rsplit_rel Cap MaxParts (rsplit_body Cap d (fs_data str ! i) st) (rtok_step d (fs_data str ! i) a)"
      and 2: "fs_size (snd (rsplit_body Cap d (fs_data str ! i) st)) \<le> fs_size current + 1"
      unfolding st a by auto
    have 3: "fs_size (snd (rsplit_body Cap d (fs_data str ! i) st)) + i \<le> Cap"
      using 2 Suc.prems(4) st by simp
    have 4: "i \<le> fs_size str" using Suc.prems(2) by simp
    have "rsplit_loop Cap MaxParts str d (Suc i) st
          = rsplit_loop Cap MaxParts str d i (rsplit_body Cap d (fs_data str ! i) st)"
      using True st by (subst rsplit_loop.simps) simp
    then show ?thesis using Suc.IH[OF 1 4 Suc.prems(3) 3] by (simp add: tk)
  next
    case False
    have cnt: "sr_count result = min MaxParts (length ts)"
      using Suc.prems(1) by (simp add: rsplit_rel_def st a)
    have ge: "MaxParts \<le> length ts" using False cnt by simp
    have "rsplit_loop Cap MaxParts str d (Suc i) st = st"
      using False st by (subst rsplit_loop.simps) simp
    then show ?thesis
      using rsplit_rel_saturated[OF Suc.prems(1)[unfolded a] ge, of d "take (Suc i) (fs_view str)"]
      by (simp add: a)
  qed
qed

lemma rsplit_final_sim:
  assumes "rsplit_rel Cap MaxParts (result, current) a"
  shows "sr_tokens (if \<not> fs_empty current \<and> sr_count result < MaxParts
                    then split_push (reversed_copy Cap current) result else result)
           = take MaxParts (rev (rtok_final a))
       \<and> sr_count (if \<not> fs_empty current \<and> sr_count result < MaxParts
                    then split_push (reversed_copy Cap current) result else result)
           = min MaxParts (length (rtok_final a))
       \<and> length (sr_parts (if \<not> fs_empty current \<and> sr_count result < MaxParts
                    then split_push (reversed_copy Cap current) result else result)) = MaxParts
       \<and> list_all (fs_inv Cap) (sr_parts (if \<not> fs_empty current \<and> sr_count result < MaxParts
                    then split_push (reversed_copy Cap current) result else result))"
proof -
  obtain ts cur where a: "a = (ts, cur)" by (cases a)
  have inv: "fs_inv Cap current" and len: "length (sr_parts result) = MaxParts"
    and tk: "sr_tokens result = take MaxParts (rev ts)"
    and la: "list_all (fs_inv Cap) (sr_parts result)"
    and cnt: "sr_count result = min MaxParts (length ts)"
    and cur: "length ts < MaxParts \<Longrightarrow> fs_view current = rev cur"
    using assms(1) by (auto simp: rsplit_rel_def a)
  show ?thesis
  proof (cases "length ts < MaxParts")
    case True
    then have c: "sr_count result = length ts" "sr_count result < MaxParts"
      using cnt by auto
    have v: "fs_view current = rev cur" using cur True by simp
    have rv: "fs_view (reversed_copy Cap current) = cur"
      using reversed_copy_correct(2)[OF inv] v by simp
    have p5: "list_all (fs_inv Cap) (sr_parts (split_push (reversed_copy Cap current) result))"
      by (rule split_push_parts_inv[OF la reversed_copy_correct(1)[OF inv]])
    show ?thesis
      using c v rv True len tk fs_empty_view[OF inv] la p5
      by (auto simp: a rtok_final_def sr_tokens_push) (simp_all add: split_push_def)
  next
    case False
    then show ?thesis using cnt len tk la by (auto simp: a rtok_final_def)
  qed
qed



lemma swap_units_length [simp]: "length (swap_units i j d) = length d"
  by (simp add: swap_units_def Let_def)

lemma swap_units_nth:
  "i < length d \<Longrightarrow> j < length d \<Longrightarrow> k < length d \<Longrightarrow>
   swap_units i j d ! k = (if k = j then d ! i else if k = i then d ! j else d ! k)"
  by (auto simp: swap_units_def Let_def nth_list_update)

lemma swap_loop_nth:
  assumes "n \<le> length p" "m \<le> n div 2"
  shows "length (fold (\<lambda>i. swap_units i (n - 1 - i)) [0..<m] p) = length p
       \<and> (\<forall>k < length p. fold (\<lambda>i. swap_units i (n - 1 - i)) [0..<m] p ! k
             = (if k < m \<or> (n - m \<le> k \<and> k < n) then p ! (n - 1 - k) else p ! k))"
  using assms(2)
proof (induction m)
  case 0
  then show ?case by auto
next
  case (Suc m)
  let ?q = "fold (\<lambda>i. swap_units i (n - 1 - i)) [0..<m] p"
  have m: "m \<le> n div 2" "m < n - 1 - m" "n - 1 - m < n" "m < n" using Suc.prems by auto
  have IH: "length ?q = length p"
    "\<And>k. k < length p \<Longrightarrow> ?q ! k = (if k < m \<or> (n - m \<le> k \<and> k < n) then p ! (n - 1 - k) else p ! k)"
    using Suc.IH[OF m(1)] by auto
  have step: "fold (\<lambda>i. swap_units i (n - 1 - i)) [0..<Suc m] p = swap_units m (n - 1 - m) ?q"
    by simp
  have qm: "?q ! m = p ! m" using IH(2)[of m] m assms(1) by auto
  have qn: "?q ! (n - 1 - m) = p ! (n - 1 - m)" using IH(2)[of "n - 1 - m"] m assms(1) by auto
  show ?case unfolding step
  proof (intro conjI allI impI)
    show "length (swap_units m (n - 1 - m) ?q) = length p" using IH(1) by simp
  next
    fix k assume k: "k < length p"
    have "swap_units m (n - 1 - m) ?q ! k
          = (if k = n - 1 - m then ?q ! m else if k = m then ?q ! (n - 1 - m) else ?q ! k)"
      using swap_units_nth[of m ?q "n - 1 - m" k] IH(1) k m assms(1) by simp
    also have "\<dots> = (if k < Suc m \<or> (n - Suc m \<le> k \<and> k < n) then p ! (n - 1 - k) else p ! k)"
    proof -
      consider "k = n - 1 - m" | "k = m" | "k \<noteq> m" "k \<noteq> n - 1 - m" by blast
      then show ?thesis
      proof cases
        case 1
        then have "n - 1 - k = m" using m by simp
        then show ?thesis using 1 qm m by auto
      next
        case 2
        then show ?thesis using qn m by auto
      next
        case 3
        have "(k < Suc m \<or> (n - Suc m \<le> k \<and> k < n)) = (k < m \<or> (n - m \<le> k \<and> k < n))"
          using 3 m by auto
        then show ?thesis using 3 IH(2)[OF k] by simp
      qed
    qed
    finally show "swap_units m (n - 1 - m) ?q ! k
          = (if k < Suc m \<or> (n - Suc m \<le> k \<and> k < n) then p ! (n - 1 - k) else p ! k)" .
  qed
qed

lemma swap_loop_rev:
  assumes "n \<le> length p"
  shows "take n (fold (\<lambda>i. swap_units i (n - 1 - i)) [0..<n div 2] p) = rev (take n p)"
    and "length (fold (\<lambda>i. swap_units i (n - 1 - i)) [0..<n div 2] p) = length p"
    and "\<And>k. n \<le> k \<Longrightarrow> k < length p \<Longrightarrow>
           fold (\<lambda>i. swap_units i (n - 1 - i)) [0..<n div 2] p ! k = p ! k"
proof -
  let ?q = "fold (\<lambda>i. swap_units i (n - 1 - i)) [0..<n div 2] p"
  have L: "length ?q = length p"
    and N: "\<And>k. k < length p \<Longrightarrow> ?q ! k = (if k < n div 2 \<or> (n - n div 2 \<le> k \<and> k < n) then p ! (n - 1 - k) else p ! k)"
    using swap_loop_nth[OF assms, of "n div 2"] by auto
  show "length ?q = length p" by (rule L)
  show "take n ?q = rev (take n p)"
  proof (rule nth_equalityI)
    show "length (take n ?q) = length (rev (take n p))" using L assms by simp
  next
    fix k assume "k < length (take n ?q)"
    then have k: "k < n" "k < length p" using L assms by auto
    have mid: "\<not> (k < n div 2 \<or> (n - n div 2 \<le> k \<and> k < n)) \<Longrightarrow> n - 1 - k = k"
      using k by linarith
    have "?q ! k = p ! (n - 1 - k)" using N[OF k(2)] mid by (cases "k < n div 2 \<or> (n - n div 2 \<le> k \<and> k < n)") auto
    moreover have "rev (take n p) ! k = p ! (n - 1 - k)"
      using k assms by (simp add: rev_nth)
    ultimately show "take n ?q ! k = rev (take n p) ! k" using k by simp
  qed
  fix k assume "n \<le> k" "k < length p"
  then show "?q ! k = p ! k" using N[of k] by auto
qed



lemma fields_hd: "hd (delimited_fields d xs) = takeWhile (\<lambda>c. c \<noteq> d) xs"
  by (induction xs) auto

lemma fields_filter:
  "filter (\<lambda>t. t \<noteq> []) (delimited_fields d xs) = split_tokens d xs
   \<and> filter (\<lambda>t. t \<noteq> []) (tl (delimited_fields d xs)) = split_tokens d (dropWhile (\<lambda>c. c \<noteq> d) xs)"
proof (induction xs)
  case Nil
  then show ?case by simp
next
  case (Cons x xs)
  then show ?case by (auto simp: fields_hd)
qed

lemma split_tokens_fields: "split_tokens d xs = filter (\<lambda>t. t \<noteq> []) (delimited_fields d xs)"
  using fields_filter[of d xs] by simp

lemma reverse_parts_tokens:
  assumes "sr_count r \<le> length (sr_parts r)"
  shows "sr_tokens (reverse_parts r) = rev (sr_tokens r)"
    and "sr_count (reverse_parts r) = sr_count r"
    and "length (sr_parts (reverse_parts r)) = length (sr_parts r)"
  using swap_loop_rev(1,2)[OF assms]
  by (simp_all add: reverse_parts_def sr_tokens_def rev_map)

lemma reverse_parts_inv:
  assumes "sr_count r \<le> length (sr_parts r)" "list_all P (sr_parts r)"
  shows "list_all P (sr_parts (reverse_parts r))"
proof -
  let ?n = "sr_count r" and ?p = "sr_parts r"
  let ?q = "fold (\<lambda>i. swap_units i (?n - 1 - i)) [0..<?n div 2] ?p"
  have L: "length ?q = length ?p"
    and N: "\<And>k. k < length ?p \<Longrightarrow> ?q ! k
        = (if k < ?n div 2 \<or> (?n - ?n div 2 \<le> k \<and> k < ?n) then ?p ! (?n - 1 - k) else ?p ! k)"
    using swap_loop_nth[OF assms(1), of "?n div 2"] by auto
  have "P (?q ! k)" if k: "k < length ?p" for k
  proof -
    have "?n - 1 - k < length ?p" using k assms(1) by linarith
    then show ?thesis using N[OF k] assms(2) k by (auto simp: list_all_length)
  qed
  then show ?thesis using L by (simp add: reverse_parts_def list_all_length)
qed

lemma rsplit_rel_init:
  "rsplit_rel Cap MaxParts (split_result_default Cap MaxParts, fstring_default Cap) ([], [])"
  by (simp add: rsplit_rel_def split_result_default_def sr_tokens_def fs_inv_default
      list_all_length) (simp add: fstring_default_def fs_view_def)

lemma rsplit_tokens:
  assumes "fs_inv Cap str"
  shows "sr_tokens (rsplit Cap MaxParts str d)
         = drop (length (split_tokens d (fs_view str)) - MaxParts) (split_tokens d (fs_view str))"
    and "sr_count (rsplit Cap MaxParts str d) = min MaxParts (length (split_tokens d (fs_view str)))"
    and "length (sr_parts (rsplit Cap MaxParts str d)) = MaxParts"
    and "list_all (fs_inv Cap) (sr_parts (rsplit Cap MaxParts str d))"
proof -
  have le: "fs_size str \<le> length (fs_data str)" "fs_size str \<le> Cap"
    using assms by (auto simp: fs_inv_def)
  let ?st0 = "(split_result_default Cap MaxParts, fstring_default Cap) :: 'a split_result \<times> 'a fstring"
  let ?f = "rsplit_loop Cap MaxParts str d (fs_size str) ?st0"
  have full_take: "take (fs_size str) (fs_view str) = fs_view str" by (simp add: fs_view_def)
  have "fs_size (snd ?st0) + fs_size str \<le> Cap" using le by (simp add: fstring_default_def)
  from rsplit_loop_sim[OF rsplit_rel_init order_refl le(1) this, where d = d]
  have rel: "rsplit_rel Cap MaxParts ?f (foldr (rtok_step d) (fs_view str) ([], []))"
    by (simp only: full_take)
  obtain result current where rc: "?f = (result, current)" by (cases ?f)
  let ?r = "if \<not> fs_empty current \<and> sr_count result < MaxParts
            then split_push (reversed_copy Cap current) result else result"
  have sc: "rsplit Cap MaxParts str d = reverse_parts ?r"
    unfolding rsplit_def rc by simp
  have fin: "sr_tokens ?r = take MaxParts (rev (split_tokens d (fs_view str)))"
    "sr_count ?r = min MaxParts (length (split_tokens d (fs_view str)))"
    "length (sr_parts ?r) = MaxParts"
    "list_all (fs_inv Cap) (sr_parts ?r)"
    using rsplit_final_sim[OF rel[unfolded rc]] by (simp_all only: rtok_scan_final)
  have cl: "sr_count ?r \<le> length (sr_parts ?r)" using fin(2,3) by simp
  show "sr_tokens (rsplit Cap MaxParts str d)
         = drop (length (split_tokens d (fs_view str)) - MaxParts) (split_tokens d (fs_view str))"
    unfolding sc reverse_parts_tokens(1)[OF cl] fin(1) by (simp add: rev_take)
  show "sr_count (rsplit Cap MaxParts str d) = min MaxParts (length (split_tokens d (fs_view str)))"
    unfolding sc reverse_parts_tokens(2)[OF cl] fin(2) by simp
  show "length (sr_parts (rsplit Cap MaxParts str d)) = MaxParts"
    unfolding sc reverse_parts_tokens(3)[OF cl] fin(3) by simp
  show "list_all (fs_inv Cap) (sr_parts (rsplit Cap MaxParts str d))"
    unfolding sc by (rule reverse_parts_inv[OF cl fin(4)])
qed

lemma split_tokens_nonempty: "t \<in> set (split_tokens d xs) \<Longrightarrow> t \<noteq> [] \<and> d \<notin> set t"
proof (induction d xs rule: split_tokens.induct)
  case (1 d)
  then show ?case by simp
next
  case (2 d x xs)
  then show ?case by (auto split: if_splits dest: set_takeWhileD)
qed


text \<open>
  Claim C3. For a buffer \<open>str\<close> and a delimiter unit \<open>d\<close>, \<open>split(str, d)\<close> returns
  the non-empty maximal runs of non-delimiter units of the content, left to right: the
  delimited_fields between delimiters with the empty ones, which come from leading, trailing and
  consecutive delimiters, left out. At most \<open>MaxParts\<close> tokens are returned, the first
  ones; the rest are dropped and the call returns as usual.
\<close>

theorem split_char_emits_tokens:
  assumes "fs_inv Cap str"
  shows "sr_tokens (split_char Cap MaxParts str d) = take MaxParts (split_tokens d (fs_view str))
       \<and> sr_count (split_char Cap MaxParts str d)
           = min MaxParts (length (split_tokens d (fs_view str)))
       \<and> split_tokens d (fs_view str) = filter (\<lambda>t. t \<noteq> []) (delimited_fields d (fs_view str))
       \<and> (\<forall>t \<in> set (split_tokens d (fs_view str)). t \<noteq> [] \<and> d \<notin> set t)"
  using split_char_tokens(1,2)[OF assms] split_tokens_fields[of d "fs_view str"]
    split_tokens_nonempty[of _ d "fs_view str"]
  by blast

theorem split_char_emits_tokens_witness:
  "fs_inv 32 (fstring_ptr_len 32 (Some (units ''a,,b'')) 4)
   \<and> sr_tokens (split_char 32 16 (fstring_ptr_len 32 (Some (units ''a,,b'')) 4) comma)
       = [units ''a'', units ''b'']
   \<and> sr_count (split_char 32 16 (fstring_ptr_len 32 (Some (units ''a,,b'')) 4) comma) = 2
   \<and> delimited_fields comma (units ''a,,b'') = [units ''a'', [], units ''b'']
   \<and> fs_inv 64 seventeen
   \<and> length (split_tokens comma (fs_view seventeen)) = 17
   \<and> sr_count (split_char 64 16 seventeen comma) = 16
   \<and> sr_tokens (split_char 64 16 seventeen comma)
       = map units [''a'', ''b'', ''c'', ''d'', ''e'', ''f'', ''g'', ''h'',
                    ''i'', ''j'', ''k'', ''l'', ''m'', ''n'', ''o'', ''p'']"
proof -
  have h1: "fs_inv 32 (fstring_ptr_len 32 (Some (units ''a,,b'')) 4)" by code_simp
  have h2: "fs_inv 64 seventeen" by code_simp
  have e1: "take 16 (split_tokens comma (fs_view (fstring_ptr_len 32 (Some (units ''a,,b'')) 4)))
            = [units ''a'', units ''b'']" by code_simp
  have e2: "min 16 (length (split_tokens comma
              (fs_view (fstring_ptr_len 32 (Some (units ''a,,b'')) 4)))) = 2" by code_simp
  have e3: "delimited_fields comma (units ''a,,b'') = [units ''a'', [], units ''b'']" by code_simp
  have e4: "length (split_tokens comma (fs_view seventeen)) = 17" by code_simp
  have e5: "take 16 (split_tokens comma (fs_view seventeen))
            = map units [''a'', ''b'', ''c'', ''d'', ''e'', ''f'', ''g'', ''h'',
                         ''i'', ''j'', ''k'', ''l'', ''m'', ''n'', ''o'', ''p'']" by code_simp
  note T = split_char_emits_tokens [OF h1, of 16 comma]
  note U = split_char_emits_tokens [OF h2, of 16 comma]
  have a1: "sr_tokens (split_char 32 16 (fstring_ptr_len 32 (Some (units ''a,,b'')) 4) comma)
            = [units ''a'', units ''b'']"
    by (rule trans [OF T [THEN conjunct1] e1])
  have a2: "sr_count (split_char 32 16 (fstring_ptr_len 32 (Some (units ''a,,b'')) 4) comma) = 2"
    by (rule trans [OF T [THEN conjunct2, THEN conjunct1] e2])
  have e6: "min 16 (length (split_tokens comma (fs_view seventeen))) = 16" by code_simp
  have a3: "sr_count (split_char 64 16 seventeen comma) = 16"
    by (rule trans [OF U [THEN conjunct2, THEN conjunct1] e6])
  have a4: "sr_tokens (split_char 64 16 seventeen comma)
            = map units [''a'', ''b'', ''c'', ''d'', ''e'', ''f'', ''g'', ''h'',
                         ''i'', ''j'', ''k'', ''l'', ''m'', ''n'', ''o'', ''p'']"
    by (rule trans [OF U [THEN conjunct1] e5])
  show ?thesis
    by (intro conjI h1 a1 a2 e3 h2 e4 a3 a4)
qed

text \<open>
  Claim C6, as amended. \<open>rsplit(str, d)\<close> returns the same tokens as \<open>split(str, d)\<close>,
  in the same left-to-right order, whenever the string has at most \<open>MaxParts\<close> tokens.
  With more tokens the two differ: \<open>split\<close> keeps the first \<open>MaxParts\<close> tokens and
  \<open>rsplit\<close>, which scans from the right, keeps the last \<open>MaxParts\<close>. A token never
  exceeds the capacity, the argument and the parts having the same capacity.
\<close>

theorem rsplit_matches_split:
  assumes "fs_inv Cap str"
  shows "sr_tokens (rsplit Cap MaxParts str d)
           = drop (length (split_tokens d (fs_view str)) - MaxParts) (split_tokens d (fs_view str))
       \<and> sr_tokens (split_char Cap MaxParts str d) = take MaxParts (split_tokens d (fs_view str))
       \<and> (length (split_tokens d (fs_view str)) \<le> MaxParts \<longrightarrow>
            sr_tokens (rsplit Cap MaxParts str d) = sr_tokens (split_char Cap MaxParts str d)
          \<and> sr_count (rsplit Cap MaxParts str d) = sr_count (split_char Cap MaxParts str d))"
  using split_char_tokens(1,2)[OF assms, of MaxParts d] rsplit_tokens(1,2)[OF assms, of MaxParts d]
  by simp

theorem rsplit_matches_split_witness:
  "fs_inv 32 (fstring_ptr_len 32 (Some (units ''a.b.c.d'')) 7)
   \<and> length (split_tokens (of_char CHR ''.'')
         (fs_view (fstring_ptr_len 32 (Some (units ''a.b.c.d'')) 7))) \<le> 16
   \<and> sr_tokens (rsplit 32 16 (fstring_ptr_len 32 (Some (units ''a.b.c.d'')) 7) (of_char CHR ''.''))
       = sr_tokens (split_char 32 16 (fstring_ptr_len 32 (Some (units ''a.b.c.d'')) 7)
           (of_char CHR ''.''))
   \<and> sr_count (rsplit 32 16 (fstring_ptr_len 32 (Some (units ''a.b.c.d'')) 7) (of_char CHR ''.''))
       = sr_count (split_char 32 16 (fstring_ptr_len 32 (Some (units ''a.b.c.d'')) 7)
           (of_char CHR ''.''))
   \<and> sr_tokens (rsplit 32 16 (fstring_ptr_len 32 (Some (units ''a.b.c.d'')) 7) (of_char CHR ''.''))
       = map units [''a'', ''b'', ''c'', ''d'']"
proof -
  have h1: "fs_inv 32 (fstring_ptr_len 32 (Some (units ''a.b.c.d'')) 7)" by code_simp
  have h2: "length (split_tokens (of_char CHR ''.'')
         (fs_view (fstring_ptr_len 32 (Some (units ''a.b.c.d'')) 7))) \<le> 16" by code_simp
  have e1: "drop (length (split_tokens (of_char CHR ''.'')
                    (fs_view (fstring_ptr_len 32 (Some (units ''a.b.c.d'')) 7))) - 16)
              (split_tokens (of_char CHR ''.'')
                    (fs_view (fstring_ptr_len 32 (Some (units ''a.b.c.d'')) 7)))
            = map units [''a'', ''b'', ''c'', ''d'']" by code_simp
  note T = rsplit_matches_split [OF h1, of 16 "of_char CHR ''.''"]
  note E = T [THEN conjunct2, THEN conjunct2, THEN mp, OF h2]
  have a1: "sr_tokens (rsplit 32 16 (fstring_ptr_len 32 (Some (units ''a.b.c.d'')) 7)
              (of_char CHR ''.'')) = map units [''a'', ''b'', ''c'', ''d'']"
    by (rule trans [OF T [THEN conjunct1] e1])
  show ?thesis
    by (intro conjI h1 h2 E [THEN conjunct1] E [THEN conjunct2] a1)
qed

text \<open>
  The claim as stated fails past \<open>MaxParts\<close>: of seventeen tokens \<open>a\<close> to \<open>q\<close> and the
  default \<open>MaxParts = 16\<close>, \<open>split\<close> returns \<open>a\<close> to \<open>p\<close> and \<open>rsplit\<close> returns
  \<open>b\<close> to \<open>q\<close>.
\<close>

theorem rsplit_differs_counterexample:
  "sr_tokens (split_char 64 16 seventeen comma)
     = map units [''a'', ''b'', ''c'', ''d'', ''e'', ''f'', ''g'', ''h'',
                  ''i'', ''j'', ''k'', ''l'', ''m'', ''n'', ''o'', ''p'']
   \<and> sr_tokens (rsplit 64 16 seventeen comma)
     = map units [''b'', ''c'', ''d'', ''e'', ''f'', ''g'', ''h'', ''i'',
                  ''j'', ''k'', ''l'', ''m'', ''n'', ''o'', ''p'', ''q'']
   \<and> sr_tokens (rsplit 64 16 seventeen comma) \<noteq> sr_tokens (split_char 64 16 seventeen comma)"
  by code_simp

section \<open>Verification: counting occurrences of a substring\<close>

lemma c_strlen_le: "c_strlen m \<le> length m"
  by (induction m) auto

lemma prefix_take_eq: "prefix p ys \<longleftrightarrow> length p \<le> length ys \<and> take (length p) ys = p"
proof
  assume "prefix p ys"
  then show "length p \<le> length ys \<and> take (length p) ys = p"
    by (auto simp: prefix_def)
next
  assume "length p \<le> length ys \<and> take (length p) ys = p"
  then have "ys = p @ drop (length p) ys" by (metis append_take_drop_id)
  then show "prefix p ys" unfolding prefix_def by blast
qed

lemma match_at_prefix:
  assumes "i + n \<le> fs_size s" "fs_size s \<le> length (fs_data s)" "n \<le> length m"
  shows "match_at s m n i \<longleftrightarrow> prefix (take n m) (drop i (fs_view s))"
proof -
  have len: "length (take n m) = n" "n \<le> length (drop i (fs_view s))"
    using assms by (auto simp: fs_view_def)
  have nth: "\<And>j. j < n \<Longrightarrow> drop i (fs_view s) ! j = fs_data s ! (i + j)"
    using assms by (simp add: fs_view_def)
  have "prefix (take n m) (drop i (fs_view s)) \<longleftrightarrow> take n (drop i (fs_view s)) = take n m"
    using len by (simp add: prefix_take_eq)
  also have "\<dots> \<longleftrightarrow> (\<forall>j<n. drop i (fs_view s) ! j = m ! j)"
    using len assms(3) by (auto simp: list_eq_iff_nth_eq)
  also have "\<dots> \<longleftrightarrow> match_at s m n i"
    using nth by (auto simp: match_at_def list_all_iff)
  finally show ?thesis by simp
qed

lemma count_nonoverlap_Nil [simp]: "count_nonoverlap p [] = 0"
  by (subst count_nonoverlap.simps) simp

lemma count_nonoverlap_short: "length xs < length p \<Longrightarrow> count_nonoverlap p xs = 0"
proof (induction xs)
  case Nil
  then show ?case by simp
next
  case (Cons x xs)
  have "\<not> prefix p (x # xs)" using Cons.prems prefix_length_le[of p "x # xs"] by auto
  moreover have "length xs < length p" using Cons.prems by simp
  ultimately show ?case using Cons.IH by (subst count_nonoverlap.simps) simp
qed

lemma find_loop_None:
  "find_loop s m n i = None \<Longrightarrow> fs_size s \<le> length (fs_data s) \<Longrightarrow> n \<le> length m \<Longrightarrow>
   0 < n \<Longrightarrow> n \<le> fs_size s \<Longrightarrow> count_nonoverlap (take n m) (drop i (fs_view s)) = 0"
proof (induction s m n i rule: find_loop.induct)
  case (1 s m n i)
  note ass = "1.prems"
  show ?case
  proof (cases "i \<le> fs_size s - n")
    case True
    then have in_range: "i + n \<le> fs_size s" using ass(5) by simp
    have nm: "\<not> match_at s m n i" and rec: "find_loop s m n (i + 1) = None"
      using ass(1) True find_loop.simps[of s m n i] by (auto split: if_splits)
    have np: "\<not> prefix (take n m) (drop i (fs_view s))"
      using nm match_at_prefix[OF in_range ass(2,3)] by simp
    have ne: "drop i (fs_view s) \<noteq> []" using in_range ass(2,4) by (simp add: fs_view_def)
    have p: "take n m \<noteq> []" using ass(3,4) by auto
    have "count_nonoverlap (take n m) (drop i (fs_view s))
          = count_nonoverlap (take n m) (tl (drop i (fs_view s)))"
      using np ne p by (subst count_nonoverlap.simps) simp
    also have "tl (drop i (fs_view s)) = drop (i + 1) (fs_view s)"
      by (simp add: drop_Suc tl_drop)
    finally show ?thesis using "1.IH"[OF True nm rec ass(2,3,4,5)] by simp
  next
    case False
    then have "length (drop i (fs_view s)) < length (take n m)"
      using ass(2,3,4,5) by (auto simp: fs_view_def)
    then show ?thesis by (rule count_nonoverlap_short)
  qed
qed

lemma find_loop_Some:
  "find_loop s m n i = Some f \<Longrightarrow> fs_size s \<le> length (fs_data s) \<Longrightarrow> n \<le> length m \<Longrightarrow>
   0 < n \<Longrightarrow> n \<le> fs_size s \<Longrightarrow>
         i \<le> f \<and> f + n \<le> fs_size s \<and> prefix (take n m) (drop f (fs_view s))
         \<and> count_nonoverlap (take n m) (drop i (fs_view s))
             = count_nonoverlap (take n m) (drop f (fs_view s))"
proof (induction s m n i rule: find_loop.induct)
  case (1 s m n i)
  note ass = "1.prems"
  have True: "i \<le> fs_size s - n"
    using ass(1) find_loop.simps[of s m n i] by (auto split: if_splits)
  then have in_range: "i + n \<le> fs_size s" using ass(5) by simp
  show ?case
  proof (cases "match_at s m n i")
    case m: True
    then have "f = i" using ass(1) True find_loop.simps[of s m n i] by simp
    then show ?thesis using m match_at_prefix[OF in_range ass(2,3)] in_range by simp
  next
    case nm: False
    then have rec: "find_loop s m n (i + 1) = Some f"
      using ass(1) True find_loop.simps[of s m n i] by simp
    have np: "\<not> prefix (take n m) (drop i (fs_view s))"
      using nm match_at_prefix[OF in_range ass(2,3)] by simp
    have ne: "drop i (fs_view s) \<noteq> []" using in_range ass(2,4) by (simp add: fs_view_def)
    have p: "take n m \<noteq> []" using ass(3,4) by auto
    have "count_nonoverlap (take n m) (drop i (fs_view s))
          = count_nonoverlap (take n m) (tl (drop i (fs_view s)))"
      using np ne p by (subst count_nonoverlap.simps) simp
    also have "tl (drop i (fs_view s)) = drop (i + 1) (fs_view s)"
      by (simp add: drop_Suc tl_drop)
    finally show ?thesis using "1.IH"[OF True nm rec ass(2,3,4,5)] by simp
  qed
qed

lemma count_loop_correct:
  assumes "fs_size s \<le> length (fs_data s)" "0 < c_strlen m"
  shows "count_loop s m (c_strlen m) cnt pos
         = Some (cnt + count_nonoverlap (take (c_strlen m) m) (drop pos (fs_view s)))"
proof (induction "fs_size s - pos" arbitrary: cnt pos rule: less_induct)
  case less
  let ?n = "c_strlen m" and ?p = "take (c_strlen m) m"
  have nm: "?n \<le> length m" by (rule c_strlen_le)
  have pne: "?p \<noteq> []" using assms(2) nm by auto
  have lp: "length ?p = ?n" using nm by simp
  show ?case
  proof (cases "pos < fs_size s")
    case False
    then have "drop pos (fs_view s) = []" by (simp add: fs_view_def)
    then show ?thesis using False by (subst count_loop.simps) simp
  next
    case True
    show ?thesis
    proof (cases "pos + ?n > fs_size s")
      case big: True
      then have f: "fs_find_str s (Some m) pos = None"
        using assms(2) by (simp add: fs_find_str_def)
      have "length (drop pos (fs_view s)) < length ?p"
        using big True assms(1) lp by (simp add: fs_view_def)
      then have "count_nonoverlap ?p (drop pos (fs_view s)) = 0" by (rule count_nonoverlap_short)
      then show ?thesis using True f by (subst count_loop.simps) simp
    next
      case fits: False
      then have nle: "?n \<le> fs_size s" by simp
      have f: "fs_find_str s (Some m) pos = find_loop s m ?n pos"
        using assms(2) fits by (simp add: fs_find_str_def)
      show ?thesis
      proof (cases "find_loop s m ?n pos")
        case None
        then show ?thesis
          using True f find_loop_None[OF None assms(1) nm assms(2) nle]
          by (subst count_loop.simps) simp
      next
        case (Some found)
        from find_loop_Some[OF Some assms(1) nm assms(2) nle]
        have g: "pos \<le> found" "found + ?n \<le> fs_size s" "prefix ?p (drop found (fs_view s))"
          "count_nonoverlap ?p (drop pos (fs_view s)) = count_nonoverlap ?p (drop found (fs_view s))"
          by auto
        have ne: "drop found (fs_view s) \<noteq> []" using g(2) assms by (simp add: fs_view_def)
        have step: "count_nonoverlap ?p (drop found (fs_view s))
                    = 1 + count_nonoverlap ?p (drop (found + ?n) (fs_view s))"
          using g(3) ne pne lp by (subst count_nonoverlap.simps) (simp add: add.commute)
        have dec: "fs_size s - (found + ?n) < fs_size s - pos" using g(1) True assms(2) by simp
        have "count_loop s m ?n cnt pos = count_loop s m ?n (cnt + 1) (found + ?n)"
          using True f Some by (subst count_loop.simps) simp
        also have "\<dots> = Some (cnt + 1 + count_nonoverlap ?p (drop (found + ?n) (fs_view s)))"
          by (rule less.hyps[OF dec])
        finally show ?thesis using g(4) step by simp
      qed
    qed
  qed
qed


text \<open>
  Claim C5, as amended. For a buffer and a non-empty null-terminated needle,
  \<open>count(str, needle)\<close> returns, and its result is the number of non-overlapping
  occurrences found scanning left to right: after a match the scan moves on by the
  length of the needle, otherwise by one unit. The count of \<open>"l"\<close> in
  \<open>"hello world"\<close> is 3; the count of \<open>"ll"\<close> is 1 in \<open>"hello"\<close> and in
  \<open>"hello world"\<close>, which hold one \<open>"ll"\<close> each; the count of \<open>"aa"\<close> in
  \<open>"aaaaa"\<close> is 2.
\<close>

theorem count_counts_nonoverlapping:
  assumes "fs_inv Cap str" and "0 < c_strlen m"
  shows "count_str str (Some m) = Some (count_nonoverlap (take (c_strlen m) m) (fs_view str))"
proof -
  have "fs_size str \<le> length (fs_data str)" using assms(1) by (simp add: fs_inv_def)
  from count_loop_correct [OF this assms(2), of 0 0]
  show ?thesis using assms(2) by (simp add: count_str_def)
qed

theorem count_counts_nonoverlapping_witness:
  "fs_inv 32 (fstring_literal 32 (literal ''hello world''))
   \<and> 0 < c_strlen (literal ''l'')
   \<and> count_str (fstring_literal 32 (literal ''hello world'')) (Some (literal ''l'')) = Some 3
   \<and> 0 < c_strlen (literal ''ll'')
   \<and> count_str (fstring_literal 32 (literal ''hello world'')) (Some (literal ''ll'')) = Some 1
   \<and> fs_inv 32 (fstring_literal 32 (literal ''aaaaa''))
   \<and> 0 < c_strlen (literal ''aa'')
   \<and> count_str (fstring_literal 32 (literal ''aaaaa'')) (Some (literal ''aa'')) = Some 2"
proof -
  have h1: "fs_inv 32 (fstring_literal 32 (literal ''hello world''))" by code_simp
  have h2: "0 < c_strlen (literal ''l'')" by code_simp
  have h3: "0 < c_strlen (literal ''ll'')" by code_simp
  have h4: "fs_inv 32 (fstring_literal 32 (literal ''aaaaa''))" by code_simp
  have h5: "0 < c_strlen (literal ''aa'')" by code_simp
  have e1: "Some (count_nonoverlap (take (c_strlen (literal ''l'')) (literal ''l''))
              (fs_view (fstring_literal 32 (literal ''hello world'')))) = Some 3" by code_simp
  have e2: "Some (count_nonoverlap (take (c_strlen (literal ''ll'')) (literal ''ll''))
              (fs_view (fstring_literal 32 (literal ''hello world'')))) = Some 1" by code_simp
  have e3: "Some (count_nonoverlap (take (c_strlen (literal ''aa'')) (literal ''aa''))
              (fs_view (fstring_literal 32 (literal ''aaaaa'')))) = Some 2" by code_simp
  have a1: "count_str (fstring_literal 32 (literal ''hello world'')) (Some (literal ''l'')) = Some 3"
    by (rule trans [OF count_counts_nonoverlapping [OF h1 h2] e1])
  have a2: "count_str (fstring_literal 32 (literal ''hello world'')) (Some (literal ''ll'')) = Some 1"
    by (rule trans [OF count_counts_nonoverlapping [OF h1 h3] e2])
  have a3: "count_str (fstring_literal 32 (literal ''aaaaa'')) (Some (literal ''aa'')) = Some 2"
    by (rule trans [OF count_counts_nonoverlapping [OF h4 h5] e3])
  show ?thesis
    by (intro conjI h1 h2 a1 h3 a2 h4 h5 a3)
qed

text \<open>
  The claim as stated fails in its second example: \<open>"hello"\<close> holds one \<open>"ll"\<close>, and
  the count is 1, not 0.
\<close>

theorem count_ll_in_hello_counterexample:
  "count_str (fstring_literal 32 (literal ''hello'')) (Some (literal ''ll'')) = Some 1
   \<and> count_str (fstring_literal 32 (literal ''hello'')) (Some (literal ''ll'')) \<noteq> Some 0"
  by code_simp

section \<open>Verification: title case\<close>

lemma whitespace_not_alpha: "is_whitespace c \<Longrightarrow> \<not> is_alpha c"
  by (auto simp: is_whitespace_def is_alpha_def)

lemma title_units_length [simp]: "length (title_units cap xs) = length xs"
  by (induction xs arbitrary: cap) auto

lemma title_units_nth:
  "i < length xs \<Longrightarrow>
   title_units cap xs ! i =
     (if is_alpha (xs ! i)
      then (if (if i = 0 then cap else is_whitespace (xs ! (i - 1)))
            then char_to_upper (xs ! i) else char_to_lower (xs ! i))
      else xs ! i)"
proof (induction xs arbitrary: cap i)
  case Nil
  then show ?case by simp
next
  case (Cons c cs)
  show ?case
  proof (cases i)
    case 0
    then show ?thesis by (auto simp: whitespace_not_alpha)
  next
    case (Suc k)
    then have k: "k < length cs" using Cons.prems by simp
    show ?thesis
    proof (cases k)
      case 0
      then show ?thesis using Suc k Cons.IH[OF k] by (auto simp: whitespace_not_alpha)
    next
      case (Suc j)
      then show ?thesis using \<open>i = Suc k\<close> k Cons.IH[OF k] by auto
    qed
  qed
qed

lemma to_title_fold:
  "fs_inv Cap r \<Longrightarrow> fs_size r + length xs \<le> Cap \<Longrightarrow>
   fs_inv Cap (fst (fold (to_title_body Cap) xs (r, cap)))
   \<and> fs_view (fst (fold (to_title_body Cap) xs (r, cap))) = fs_view r @ title_units cap xs"
proof (induction xs arbitrary: r cap)
  case Nil
  then show ?case by simp
next
  case (Cons c cs)
  have lt: "fs_size r < Cap" using Cons.prems(2) by simp
  obtain r' cap' where st: "to_title_body Cap c (r, cap) = (r', cap')"
    by (cases "to_title_body Cap c (r, cap)")
  have r': "fs_inv Cap r'" "fs_size r' = fs_size r + 1"
    "fs_view r' @ title_units cap' cs = fs_view r @ title_units cap (c # cs)"
    using st Cons.prems(1) lt
    by (auto simp: to_title_body_def fs_push_back_inv fs_push_back_size_eq fs_push_back_view
        split: if_splits)
  have "fs_size r' + length cs \<le> Cap" using r'(2) Cons.prems(2) by simp
  from Cons.IH[OF r'(1) this, of cap'] show ?case using st r'(3) by simp
qed

lemma to_title_view:
  assumes "fs_inv Cap str"
  shows "fs_inv Cap (to_title Cap str)"
    and "fs_view (to_title Cap str) = title_units True (fs_view str)"
proof -
  have le: "fs_size str \<le> length (fs_data str)" "fs_size str \<le> Cap"
    using assms by (auto simp: fs_inv_def)
  have f: "to_title Cap str = fst (fold (to_title_body Cap) (fs_view str) (fstring_default Cap, True))"
    using fold_index[OF le(1), of "to_title_body Cap"] by (simp add: to_title_def fs_view_def)
  have "fs_size (fstring_default Cap :: char_t fstring) + length (fs_view str) \<le> Cap"
    using le by (simp add: fstring_default_def fs_view_def)
  from to_title_fold[OF fs_inv_default this, of True]
  show "fs_inv Cap (to_title Cap str)"
    and "fs_view (to_title Cap str) = title_units True (fs_view str)"
    unfolding f by (simp_all add: fs_view_def fstring_default_def)
qed

lemma fs_view_length: "fs_size s \<le> length (fs_data s) \<Longrightarrow> length (fs_view s) = fs_size s"
  by (simp add: fs_view_def)


text \<open>
  Claim C7, as amended. \<open>to_title\<close> keeps the length and rewrites each unit by its
  own value and the unit before it: an alphabetic unit is uppercased when it is the
  first unit of the string or directly follows a whitespace unit, and lowercased
  otherwise; every other unit passes through. Only a whitespace unit sets the
  capitalize-next flag and every other unit clears it. The whitespace set of
  \<open>to_title\<close> is exactly space, tab, LF and CR: form-feed and vertical-tab are ordinary
  units to it.
\<close>

theorem to_title_capitalizes:
  assumes "fs_inv Cap str"
  shows "fs_size (to_title Cap str) = fs_size str
       \<and> (\<forall>i < fs_size str.
            fs_data (to_title Cap str) ! i =
              (if is_alpha (fs_data str ! i)
               then (if i = 0 \<or> is_whitespace (fs_data str ! (i - 1))
                     then char_to_upper (fs_data str ! i)
                     else char_to_lower (fs_data str ! i))
               else fs_data str ! i))
       \<and> (\<forall>c. is_whitespace c \<longleftrightarrow> c \<in> {of_char CHR '' '', 9, 10, 13})"
proof -
  have le: "fs_size str \<le> length (fs_data str)" using assms by (simp add: fs_inv_def)
  have inv': "fs_inv Cap (to_title Cap str)" by (rule to_title_view(1)[OF assms])
  have le': "fs_size (to_title Cap str) \<le> length (fs_data (to_title Cap str))"
    using inv' by (simp add: fs_inv_def)
  have v: "fs_view (to_title Cap str) = title_units True (fs_view str)"
    by (rule to_title_view(2)[OF assms])
  have sz: "fs_size (to_title Cap str) = fs_size str"
    using arg_cong[OF v, of length] fs_view_length[OF le] fs_view_length[OF le'] by simp
  have nth: "fs_data (to_title Cap str) ! i =
              (if is_alpha (fs_data str ! i)
               then (if i = 0 \<or> is_whitespace (fs_data str ! (i - 1))
                     then char_to_upper (fs_data str ! i)
                     else char_to_lower (fs_data str ! i))
               else fs_data str ! i)" if i: "i < fs_size str" for i
  proof -
    have "fs_data (to_title Cap str) ! i = fs_view (to_title Cap str) ! i"
      using i sz by (simp add: fs_view_def)
    also have "\<dots> = title_units True (fs_view str) ! i" by (simp only: v)
    also have "\<dots> = (if is_alpha (fs_view str ! i)
      then (if (if i = 0 then True else is_whitespace (fs_view str ! (i - 1)))
            then char_to_upper (fs_view str ! i) else char_to_lower (fs_view str ! i))
      else fs_view str ! i)"
      using i le by (intro title_units_nth) (simp add: fs_view_def)
    also have "\<dots> = (if is_alpha (fs_data str ! i)
               then (if i = 0 \<or> is_whitespace (fs_data str ! (i - 1))
                     then char_to_upper (fs_data str ! i)
                     else char_to_lower (fs_data str ! i))
               else fs_data str ! i)"
      using i by (auto simp: fs_view_def)
    finally show ?thesis .
  qed
  have ws: "\<forall>c. is_whitespace c \<longleftrightarrow> c \<in> {of_char CHR '' '', 9, 10, 13}"
    by (auto simp: is_whitespace_def)
  show ?thesis using sz nth ws by blast
qed

theorem to_title_capitalizes_witness:
  "fs_inv 32 (fstring_ptr_len 32 (Some (units ''hello world'')) 11)
   \<and> fs_size (to_title 32 (fstring_ptr_len 32 (Some (units ''hello world'')) 11)) = 11
   \<and> fs_data (to_title 32 (fstring_ptr_len 32 (Some (units ''hello world'')) 11)) ! 6
       = of_char CHR ''W''
   \<and> fs_view (to_title 32 (fstring_ptr_len 32 (Some (units ''hello world'')) 11))
       = units ''Hello World''"
proof -
  have h: "fs_inv 32 (fstring_ptr_len 32 (Some (units ''hello world'')) 11)" by code_simp
  have sz: "fs_size (fstring_ptr_len 32 (Some (units ''hello world'')) 11) = 11" by code_simp
  have i6: "6 < fs_size (fstring_ptr_len 32 (Some (units ''hello world'')) 11)" by code_simp
  note T = to_title_capitalizes [OF h]
  have a1: "fs_size (to_title 32 (fstring_ptr_len 32 (Some (units ''hello world'')) 11)) = 11"
    by (rule trans [OF T [THEN conjunct1] sz])
  have e: "(if is_alpha (fs_data (fstring_ptr_len 32 (Some (units ''hello world'')) 11) ! 6)
            then (if 6 = (0::nat) \<or> is_whitespace
                       (fs_data (fstring_ptr_len 32 (Some (units ''hello world'')) 11) ! (6 - 1))
                  then char_to_upper (fs_data (fstring_ptr_len 32 (Some (units ''hello world'')) 11) ! 6)
                  else char_to_lower (fs_data (fstring_ptr_len 32 (Some (units ''hello world'')) 11) ! 6))
            else fs_data (fstring_ptr_len 32 (Some (units ''hello world'')) 11) ! 6)
           = of_char CHR ''W''" by code_simp
  have a2: "fs_data (to_title 32 (fstring_ptr_len 32 (Some (units ''hello world'')) 11)) ! 6
            = of_char CHR ''W''"
    by (rule trans [OF T [THEN conjunct2, THEN conjunct1, rule_format, OF i6] e])
  have a3: "fs_view (to_title 32 (fstring_ptr_len 32 (Some (units ''hello world'')) 11))
            = units ''Hello World''" by code_simp
  show ?thesis
    by (intro conjI h a1 a2 a3)
qed

text \<open>
  The claim as stated fails on form-feed and vertical-tab, which it counts as
  whitespace: in \<open>a\<close>, form-feed, \<open>b\<close> and in \<open>a\<close>, vertical-tab, \<open>b\<close> the \<open>b\<close>
  stays lowercase. It also fails where a non-alphabetic unit stands between a
  whitespace run and the first letter after it: in \<open>" 1a"\<close> the \<open>a\<close> stays lowercase,
  the digit having cleared the flag.
\<close>

theorem to_title_form_feed_counterexample:
  "fs_view (to_title 8 (fstring_ptr_len 8 (Some [of_char CHR ''a'', 12, of_char CHR ''b'']) 3))
     = [of_char CHR ''A'', 12, of_char CHR ''b'']
   \<and> fs_view (to_title 8 (fstring_ptr_len 8 (Some [of_char CHR ''a'', 11, of_char CHR ''b'']) 3))
     = [of_char CHR ''A'', 11, of_char CHR ''b'']
   \<and> fs_view (to_title 8 (fstring_ptr_len 8 (Some (units '' 1a'')) 3)) = units '' 1a''"
  by code_simp

section \<open>Verification: formatting an integer and parsing it back\<close>

lemma lsb_digits_pos: "0 < u \<Longrightarrow> lsb_digits u = (u mod 10) # lsb_digits (u div 10)"
  by (subst lsb_digits.simps) simp

lemma lsb_digits_nonpos: "u \<le> 0 \<Longrightarrow> lsb_digits u = []"
  by (subst lsb_digits.simps) simp

lemma lsb_digits_range: "d \<in> set (lsb_digits u) \<Longrightarrow> 0 \<le> d \<and> d \<le> 9"
proof (induction u rule: lsb_digits.induct)
  case (1 u)
  show ?case
  proof (cases "0 < u")
    case True
    then show ?thesis using 1 by (auto simp: lsb_digits_pos)
  next
    case False
    then show ?thesis using 1 by (simp add: lsb_digits_nonpos)
  qed
qed

lemma lsb_digits_length: "0 < u \<Longrightarrow> length (lsb_digits u) = decimal_length u"
proof (induction u rule: lsb_digits.induct)
  case (1 u)
  show ?case
  proof (cases "u < 10")
    case True
    then have "u div 10 = 0" using "1.prems" by simp
    then show ?thesis using True "1.prems"
      by (simp add: lsb_digits_pos lsb_digits_nonpos decimal_length.simps[of u])
  next
    case False
    then have "0 < u div 10" by simp
    then show ?thesis using False "1.prems" "1.IH"
      by (simp add: lsb_digits_pos decimal_length.simps[of u])
  qed
qed

lemma decimal_length_mono: "a \<le> b \<Longrightarrow> decimal_length a \<le> decimal_length b"
proof (induction b arbitrary: a rule: decimal_length.induct)
  case (1 b)
  show ?case
  proof (cases "b < 10")
    case True
    then show ?thesis using "1.prems"
      by (simp add: decimal_length.simps[of a] decimal_length.simps[of b])
  next
    case False
    have "a div 10 \<le> b div 10" using "1.prems" by (simp add: zdiv_mono1)
    from "1.IH"[OF False this] show ?thesis using False
      by (simp add: decimal_length.simps[of a] decimal_length.simps[of b])
  qed
qed

lemma decimal_length_pos: "0 < decimal_length n"
  by (subst decimal_length.simps) simp

lemma msb_value: "0 \<le> u \<Longrightarrow> foldl (\<lambda>r d. r * 10 + d) 0 (rev (lsb_digits u)) = u"
proof (induction u rule: lsb_digits.induct)
  case (1 u)
  show ?case
  proof (cases "0 < u")
    case True
    then have "0 \<le> u div 10" by simp
    from "1.IH"[OF True this] show ?thesis using True by (simp add: lsb_digits_pos)
  next
    case False
    then show ?thesis using "1.prems" by (simp add: lsb_digits_nonpos)
  qed
qed

lemma format_digits_buffer:
  "pos + length (lsb_digits u) \<le> length buf \<Longrightarrow>
   format_digits u buf pos
     = (take pos buf @ map digit_unit (lsb_digits u) @ drop (pos + length (lsb_digits u)) buf,
        pos + length (lsb_digits u))"
proof (induction u buf pos rule: format_digits.induct)
  case (1 u buf pos)
  show ?case
  proof (cases "0 < u")
    case False
    then show ?thesis by (subst format_digits.simps) (simp add: lsb_digits_nonpos)
  next
    case True
    let ?b = "buf[pos := of_char CHR ''0'' + of_int (u mod 10)]"
    have l: "pos + 1 + length (lsb_digits (u div 10)) \<le> length ?b"
      using "1.prems" True by (simp add: lsb_digits_pos)
    have p: "pos < length buf" using "1.prems" True by (simp add: lsb_digits_pos)
    have "format_digits u buf pos = format_digits (u div 10) ?b (pos + 1)"
      using True by (subst format_digits.simps) simp
    also have "\<dots> = (take (pos + 1) ?b @ map digit_unit (lsb_digits (u div 10))
                       @ drop (pos + 1 + length (lsb_digits (u div 10))) ?b,
                     pos + 1 + length (lsb_digits (u div 10)))"
      by (rule "1.IH"[OF True l])
    also have "take (pos + 1) ?b = take pos buf @ [digit_unit (u mod 10)]"
      using p by (simp add: take_Suc_conv_app_nth digit_unit_def)
    also have "drop (pos + 1 + length (lsb_digits (u div 10))) ?b
               = drop (pos + length (lsb_digits u)) buf"
      using True by (simp add: lsb_digits_pos)
    finally show ?thesis using True by (simp add: lsb_digits_pos)
  qed
qed

lemma format_copy_fold:
  "n \<le> length buf \<Longrightarrow> format_copy Cap buf n r = fold (fs_push_back Cap) (rev (take n buf)) r"
proof (induction n arbitrary: r)
  case 0
  then show ?case by simp
next
  case (Suc n)
  then show ?case by (simp add: take_Suc_conv_app_nth)
qed

lemma digit_cases:
  "0 \<le> d \<Longrightarrow> d \<le> 9 \<Longrightarrow>
   d = 0 \<or> d = 1 \<or> d = 2 \<or> d = 3 \<or> d = 4 \<or> d = 5 \<or> d = 6 \<or> d = 7 \<or> d = 8 \<or> d = (9::int)"
  by arith

lemma digit_of_digit_unit: "0 \<le> d \<Longrightarrow> d \<le> 9 \<Longrightarrow> digit_of (digit_unit d) = d"
  using digit_cases[of d] by (auto simp: digit_of_def digit_unit_def)

lemma digit_unit_not_sign:
  "0 \<le> d \<Longrightarrow> d \<le> 9 \<Longrightarrow>
   digit_unit d \<noteq> of_char CHR ''-'' \<and> digit_unit d \<noteq> of_char CHR ''+''"
  using digit_cases[of d] by (auto simp: digit_unit_def)

lemma pow_split: "0 < w \<Longrightarrow> (2::int) ^ w = 2 ^ (w - 1) + 2 ^ (w - 1)"
  by (cases w) simp_all

lemma arith_exact:
  assumes "0 < w" "0 \<le> x" "x \<le> max_value w sg"
  shows "arith w sg x = Inr x" and "convert w sg x = x"
proof -
  have p31: "(2::int) ^ w \<le> 2 ^ 31" if "w < 32"
    using that by (intro power_increasing) simp_all
  have pw: "(2::int) ^ (w - 1) \<le> 2 ^ (max w 32 - 1)"
    by (intro power_increasing) simp_all
  have pw2: "(2::int) ^ w \<le> 2 ^ max w 32"
    by (intro power_increasing) simp_all
  show "arith w sg x = Inr x"
  proof (cases sg)
    case True
    then have "x < 2 ^ (w - 1)" using assms(3) by (simp add: max_value_def)
    then have "x < 2 ^ (max w 32 - 1)" using pw by linarith
    then show ?thesis using True assms(2)
      by (simp add: arith_def arith_signed_def arith_width_def in_signed_def)
  next
    case False
    then have lt: "x < 2 ^ w" using assms(3) by (simp add: max_value_def)
    show ?thesis
    proof (cases "w < 32")
      case True
      then have "x < 2 ^ 31" using lt p31 by linarith
      then show ?thesis using True False assms(2)
        by (simp add: arith_def arith_signed_def arith_width_def in_signed_def max_def)
    next
      case False
      have "x < 2 ^ max w 32" using lt pw2 by linarith
      then show ?thesis using False \<open>\<not> sg\<close> assms(2)
        by (simp add: arith_def arith_signed_def arith_width_def)
    qed
  qed
  show "convert w sg x = x"
  proof (cases sg)
    case True
    then have "x < 2 ^ (w - 1)" using assms(3) by (simp add: max_value_def)
    then have "0 \<le> x + 2 ^ (w - 1)" "x + 2 ^ (w - 1) < 2 ^ w"
      using assms(2) pow_split[OF assms(1)] by simp_all
    then show ?thesis using True by (simp add: convert_def)
  next
    case False
    then have "x < 2 ^ w" using assms(3) by (simp add: max_value_def)
    then show ?thesis using False assms(2) by (simp add: convert_def)
  qed
qed

lemma arith_exact_neg:
  assumes "0 < w" "0 \<le> x" "x \<le> max_value w True"
  shows "arith w True (- x) = Inr (- x)" and "convert w True (- x) = - x"
proof -
  have pw: "(2::int) ^ (w - 1) \<le> 2 ^ (max w 32 - 1)"
    by (intro power_increasing) simp_all
  have lt: "x < 2 ^ (w - 1)" using assms(3) by (simp add: max_value_def)
  then have "- (2 ^ (max w 32 - 1)) \<le> - x" "- x < 2 ^ (max w 32 - 1)"
    using pw assms(2) by linarith+
  then show "arith w True (- x) = Inr (- x)"
    by (simp add: arith_def arith_signed_def arith_width_def in_signed_def)
  have "0 \<le> - x + 2 ^ (w - 1)" "- x + 2 ^ (w - 1) < 2 ^ w"
    using lt assms(2) pow_split[OF assms(1)] by linarith+
  then show "convert w True (- x) = - x" by (simp add: convert_def)
qed

lemma foldl_digits_mono:
  "0 \<le> (r::int) \<Longrightarrow> (\<forall>d \<in> set ds. 0 \<le> d) \<Longrightarrow> r \<le> foldl (\<lambda>r d. r * 10 + d) r ds"
proof (induction ds arbitrary: r)
  case Nil
  then show ?case by simp
next
  case (Cons d ds)
  have "0 \<le> r * 10 + d" "r \<le> r * 10 + d" using Cons.prems by auto
  moreover have "r * 10 + d \<le> foldl (\<lambda>r d. r * 10 + d) (r * 10 + d) ds"
    using Cons.IH[of "r * 10 + d"] Cons.prems by auto
  ultimately show ?case by simp
qed

lemma parse_accumulate_exact:
  assumes "0 < w" "0 \<le> r" "0 \<le> d" "r * 10 + d \<le> max_value w sg"
  shows "parse_accumulate w sg r 10 d = Inr (r * 10 + d)"
proof -
  have 1: "0 \<le> r * 10" "r * 10 \<le> max_value w sg" using assms by auto
  have 2: "0 \<le> r * 10 + d" using assms by auto
  show ?thesis
    by (simp add: parse_accumulate_def arith_exact(1)[OF assms(1) 1]
        arith_exact[OF assms(1) 2 assms(4)])
qed

lemma parse_loop_digits:
  assumes "0 < w" "fs_size str \<le> length (fs_data str)"
  shows "drop i (fs_view str) = map digit_unit ds \<Longrightarrow> i \<le> fs_size str \<Longrightarrow>
         (\<forall>d \<in> set ds. 0 \<le> d \<and> d \<le> 9) \<Longrightarrow> 0 \<le> r \<Longrightarrow>
         foldl (\<lambda>r d. r * 10 + d) r ds \<le> max_value w sg \<Longrightarrow>
         parse_loop w sg 10 str i r = Inr (foldl (\<lambda>r d. r * 10 + d) r ds)"
proof (induction ds arbitrary: i r)
  case Nil
  then have "\<not> i < fs_size str" using assms(2) by (simp add: fs_view_def)
  then show ?case by (subst parse_loop.simps) simp
next
  case (Cons d ds)
  have lt: "i < fs_size str" using Cons.prems(1,2) assms(2)
    by (cases "i < fs_size str") (auto simp: fs_view_def)
  have hd: "fs_data str ! i = digit_unit d"
  proof -
    have "drop i (fs_view str) ! 0 = digit_unit d" using Cons.prems(1) by simp
    then show ?thesis using lt assms(2) by (simp add: fs_view_def)
  qed
  have tl: "drop (i + 1) (fs_view str) = map digit_unit ds"
    using Cons.prems(1) by (metis Suc_eq_plus1 drop_Suc list.sel(3) list.simps(9) tl_drop)
  have d: "0 \<le> d" "d \<le> 9" using Cons.prems(3) by auto
  have dg: "digit_of (fs_data str ! i) = d" using hd digit_of_digit_unit[OF d] by simp
  have r': "0 \<le> r * 10 + d" using Cons.prems(4) d by auto
  have "r * 10 + d \<le> foldl (\<lambda>r d. r * 10 + d) (r * 10 + d) ds"
    using foldl_digits_mono[OF r', of ds] Cons.prems(3) by auto
  then have fit: "r * 10 + d \<le> max_value w sg" using Cons.prems(5) by simp
  have acc: "parse_accumulate w sg r 10 d = Inr (r * 10 + d)"
    by (rule parse_accumulate_exact[OF assms(1) Cons.prems(4) d(1) fit])
  have "parse_loop w sg 10 str i r = parse_loop w sg 10 str (i + 1) (r * 10 + d)"
    using lt dg d acc by (subst parse_loop.simps) (simp add: Let_def)
  also have "\<dots> = Inr (foldl (\<lambda>r d. r * 10 + d) (r * 10 + d) ds)"
    using Cons.IH[OF tl _ _ r'] lt Cons.prems(3,5) by simp
  finally show ?case by simp
qed

lemma magnitude_negative:
  assumes "0 < w" "- (2 ^ (w - 1)) \<le> v" "v < (0::int)"
  shows "((- (v + 1)) mod 2 ^ w + 1) mod 2 ^ w = - v"
proof -
  have p: "(2::int) ^ (w - 1) < 2 ^ w" using pow_split[OF assms(1)] by simp
  have "0 \<le> - (v + 1)" "- (v + 1) < 2 ^ w" using assms p by linarith+
  then have "(- (v + 1)) mod 2 ^ w = - (v + 1)" by simp
  moreover have "0 \<le> - v" "- v < 2 ^ w" using assms p by linarith+
  ultimately show ?thesis by simp
qed

lemma digit_count_bound:
  assumes "0 < u" "u \<le> 2 ^ (if sg then w - 1 else w)"
  shows "length (lsb_digits u) \<le> digits10 w sg + 1"
proof -
  have "length (lsb_digits u) = decimal_length u" by (rule lsb_digits_length[OF assms(1)])
  also have "\<dots> \<le> decimal_length (2 ^ (if sg then w - 1 else w))"
    by (rule decimal_length_mono[OF assms(2)])
  also have "\<dots> = digits10 w sg + 1"
    using decimal_length_pos[of "2 ^ (if sg then w - 1 else w)"] by (simp add: digits10_def)
  finally show ?thesis .
qed

lemma format_int_nonzero:
  assumes "0 < w" "in_range w sg v" "v \<noteq> 0"
  shows "fs_inv (digits10 w sg + 3) (format_int w sg v)"
    and "fs_view (format_int w sg v)
         = (if sg \<and> v < 0 then [of_char CHR ''-''] else []) @ map digit_unit (rev (lsb_digits \<bar>v\<bar>))"
proof -
  define md where "md = digits10 w sg + 3"
  define negative where "negative \<longleftrightarrow> sg \<and> v < 0"
  define u where "u = (if negative then ((- (v + 1)) mod 2 ^ w + 1) mod 2 ^ w else v mod 2 ^ w)"
  define r :: "char_t fstring"
    where "r = (if negative then fs_push_back md (of_char CHR ''-'') (fstring_default md)
                else fstring_default md)"
  define n where "n = length (lsb_digits u)"
  have p: "(2::int) ^ (w - 1) < 2 ^ w" using pow_split[OF assms(1)] by simp
  have u: "u = \<bar>v\<bar>"
  proof (cases negative)
    case True
    then have "- (2 ^ (w - 1)) \<le> v" "v < 0"
      using assms(2) by (auto simp: negative_def in_range_def in_signed_def)
    from magnitude_negative[OF assms(1) this] show ?thesis using True \<open>v < 0\<close> by (simp add: u_def)
  next
    case False
    have "0 \<le> v \<and> v < 2 ^ w"
    proof (cases sg)
      case True
      then have "0 \<le> v" "v < 2 ^ (w - 1)"
        using assms(2) False by (auto simp: negative_def in_range_def in_signed_def)
      then show ?thesis using p by linarith
    next
      case False
      then show ?thesis using assms(2) by (simp add: in_range_def)
    qed
    then show ?thesis using False by (simp add: u_def)
  qed
  have upos: "0 < u" using u assms(3) by simp
  have ub: "u \<le> 2 ^ (if sg then w - 1 else w)"
    using u assms(2) by (auto simp: in_range_def in_signed_def split: if_splits)
  have nb: "n \<le> digits10 w sg + 1" unfolding n_def by (rule digit_count_bound[OF upos ub])
  have fd: "format_digits u (replicate md 0) 0
            = (map digit_unit (lsb_digits u) @ drop n (replicate md 0), n)"
    using format_digits_buffer[of 0 u "replicate md 0"] nb by (simp add: n_def md_def)
  have rinv: "fs_inv md r" and rview: "fs_view r = (if negative then [of_char CHR ''-''] else [])"
    and rsize: "fs_size r \<le> 1"
  proof -
    have d: "fs_inv md (fstring_default md :: char_t fstring)" by (rule fs_inv_default)
    have z: "fs_size (fstring_default md :: char_t fstring) = 0" by (simp add: fstring_default_def)
    have lt: "fs_size (fstring_default md :: char_t fstring) < md" unfolding z by (simp add: md_def)
    show "fs_inv md r" using d by (simp add: r_def fs_push_back_inv)
    show "fs_view r = (if negative then [of_char CHR ''-''] else [])"
      using fs_push_back_view[OF d lt] by (simp add: r_def fs_view_def z)
    show "fs_size r \<le> 1" using fs_push_back_size_eq[OF lt] by (simp add: r_def z)
  qed
  have fi: "format_int w sg v
            = format_copy md (map digit_unit (lsb_digits u) @ drop n (replicate md 0)) n r"
    using assms(3) fd
    by (simp add: format_int_def Let_def md_def[symmetric] negative_def[symmetric]
        u_def[symmetric] r_def[symmetric])
  have tk: "take n (map digit_unit (lsb_digits u) @ drop n (replicate md 0))
            = map digit_unit (lsb_digits u)" by (simp add: n_def)
  have fc: "format_int w sg v = fold (fs_push_back md) (rev (map digit_unit (lsb_digits u))) r"
    unfolding fi using format_copy_fold[of n "map digit_unit (lsb_digits u) @ drop n (replicate md 0)" md r]
    by (simp only: tk) (simp add: n_def)
  have room: "fs_size r + length (rev (map digit_unit (lsb_digits u))) \<le> md"
    using rsize nb by (simp add: n_def md_def)
  from push_all[OF rinv room]
  show "fs_inv (digits10 w sg + 3) (format_int w sg v)"
    and "fs_view (format_int w sg v)
         = (if sg \<and> v < 0 then [of_char CHR ''-''] else []) @ map digit_unit (rev (lsb_digits \<bar>v\<bar>))"
    unfolding fc[symmetric] md_def[symmetric]
    by (simp_all add: rview u negative_def rev_map)
qed

lemma format_int_zero:
  "fs_inv (digits10 w sg + 3) (format_int w sg 0)"
  "fs_view (format_int w sg 0) = [digit_unit 0]"
proof -
  have d: "fs_inv (digits10 w sg + 3) (fstring_default (digits10 w sg + 3) :: char_t fstring)"
    by (rule fs_inv_default)
  have lt: "fs_size (fstring_default (digits10 w sg + 3) :: char_t fstring) < digits10 w sg + 3"
    by (simp add: fstring_default_def)
  show "fs_inv (digits10 w sg + 3) (format_int w sg 0)"
    using d by (simp add: format_int_def Let_def fs_push_back_inv)
  have v0: "fs_view (fstring_default (digits10 w sg + 3) :: char_t fstring) = []"
    by (simp add: fs_view_def fstring_default_def)
  have f0: "format_int w sg 0
            = fs_push_back (digits10 w sg + 3) (digit_unit 0) (fstring_default (digits10 w sg + 3))"
    by (simp add: format_int_def Let_def digit_unit_def)
  show "fs_view (format_int w sg 0) = [digit_unit 0]"
    unfolding f0 fs_push_back_view[OF d lt] v0 by simp
qed

lemma lsb_digits_nonempty: "0 < u \<Longrightarrow> lsb_digits u \<noteq> []"
  by (simp add: lsb_digits_pos)

lemma max_value_nonneg: "0 \<le> max_value w sg"
  by (simp add: max_value_def)

lemma fs_view_nth: "i < fs_size s \<Longrightarrow> fs_size s \<le> length (fs_data s) \<Longrightarrow> fs_data s ! i = fs_view s ! i"
  by (simp add: fs_view_def)

text \<open>Away from the most negative value of a signed type the round trip holds at
  every width: formatting a representable value and parsing the text in base 10 returns
  the value, and no step overflows.\<close>

lemma format_parse_round_trip:
  assumes "0 < w" and "in_range w sg v" and "sg \<longrightarrow> v \<noteq> - (2 ^ (w - 1))"
  shows "parse_int w sg (format_int w sg v) 10 = Inr v"
proof -
  let ?str = "format_int w sg v"
  let ?f = "\<lambda>r d. r * 10 + (d::int)"
  have p: "(2::int) ^ (w - 1) < 2 ^ w" using pow_split[OF assms(1)] by simp
  consider (zero) "v = 0" | (pos) "0 < v" | (neg) "v < 0" by linarith
  then show ?thesis
  proof cases
    case zero
    have inv: "fs_inv (digits10 w sg + 3) ?str" and view: "fs_view ?str = [digit_unit 0]"
      using format_int_zero[of w sg] zero by simp_all
    have le: "fs_size ?str \<le> length (fs_data ?str)" using inv by (simp add: fs_inv_def)
    have sz: "fs_size ?str = 1" using arg_cong[OF view, of length] fs_view_length[OF le] by simp
    have d0: "fs_data ?str ! 0 = digit_unit 0" using fs_view_nth[of 0 ?str] sz le view by simp
    have ns: "fs_data ?str ! 0 \<noteq> of_char CHR ''-''" "fs_data ?str ! 0 \<noteq> of_char CHR ''+''"
      using digit_unit_not_sign[of 0] d0 by simp_all
    have "parse_loop w sg 10 ?str 0 0 = Inr (foldl ?f 0 [0])"
      by (rule parse_loop_digits[OF assms(1) le]) (simp_all add: view sz max_value_nonneg)
    then show ?thesis using ns sz zero by (simp add: parse_int_def fs_empty_def)
  next
    case pos
    then have nz: "v \<noteq> 0" by simp
    have inv: "fs_inv (digits10 w sg + 3) ?str"
      and view: "fs_view ?str = map digit_unit (rev (lsb_digits v))"
      using format_int_nonzero[OF assms(1,2) nz] pos by simp_all
    have le: "fs_size ?str \<le> length (fs_data ?str)" using inv by (simp add: fs_inv_def)
    have ne: "rev (lsb_digits v) \<noteq> []" using lsb_digits_nonempty[OF pos] by simp
    have sz: "0 < fs_size ?str" using arg_cong[OF view, of length] fs_view_length[OF le] ne by simp
    have rng: "\<forall>d \<in> set (rev (lsb_digits v)). 0 \<le> d \<and> d \<le> 9"
      using lsb_digits_range by auto
    have "fs_data ?str ! 0 = digit_unit (hd (rev (lsb_digits v)))"
      using fs_view_nth[OF sz le] view ne by (simp add: hd_conv_nth)
    moreover have "hd (rev (lsb_digits v)) \<in> set (rev (lsb_digits v))"
      using ne by (rule hd_in_set)
    ultimately have ns: "fs_data ?str ! 0 \<noteq> of_char CHR ''-''" "fs_data ?str ! 0 \<noteq> of_char CHR ''+''"
      using digit_unit_not_sign rng by metis+
    have val: "foldl ?f 0 (rev (lsb_digits v)) = v" using msb_value[of v] pos by simp
    have fit: "v \<le> max_value w sg"
      using assms(2) p by (auto simp: in_range_def in_signed_def max_value_def split: if_splits)
    have "parse_loop w sg 10 ?str 0 0 = Inr (foldl ?f 0 (rev (lsb_digits v)))"
      by (rule parse_loop_digits[OF assms(1) le]) (simp_all add: view rng val fit)
    then show ?thesis using ns sz val by (simp add: parse_int_def fs_empty_def)
  next
    case neg
    then have nz: "v \<noteq> 0" by simp
    have sg: sg using assms(2) neg by (auto simp: in_range_def split: if_splits)
    have upos: "0 < - v" using neg by simp
    have inv: "fs_inv (digits10 w sg + 3) ?str"
      and view: "fs_view ?str = of_char CHR ''-'' # map digit_unit (rev (lsb_digits (- v)))"
      using format_int_nonzero[OF assms(1,2) nz] neg sg by simp_all
    have le: "fs_size ?str \<le> length (fs_data ?str)" using inv by (simp add: fs_inv_def)
    have sz: "0 < fs_size ?str" "1 \<le> fs_size ?str"
      using arg_cong[OF view, of length] fs_view_length[OF le] by simp_all
    have rng: "\<forall>d \<in> set (rev (lsb_digits (- v))). 0 \<le> d \<and> d \<le> 9"
      using lsb_digits_range by auto
    have d0: "fs_data ?str ! 0 = of_char CHR ''-''"
      using fs_view_nth[OF sz(1) le] view by simp
    have val: "foldl ?f 0 (rev (lsb_digits (- v))) = - v" using msb_value[of "- v"] neg by simp
    have fit: "- v \<le> max_value w True"
      using assms(2,3) sg by (auto simp: in_range_def in_signed_def max_value_def)
    have dr: "drop 1 (fs_view ?str) = map digit_unit (rev (lsb_digits (- v)))" by (simp add: view)
    have "parse_loop w sg 10 ?str 1 0 = Inr (foldl ?f 0 (rev (lsb_digits (- v))))"
      using fit sg by (intro parse_loop_digits[OF assms(1) le dr sz(2) rng]) (simp_all add: val)
    then have pl: "parse_loop w sg 10 ?str 1 0 = Inr (- v)" by (simp only: val)
    have ar: "arith w True (- (- v)) = Inr (- (- v))" "convert w True (- (- v)) = - (- v)"
      using arith_exact_neg[OF assms(1) _ fit] upos by simp_all
    show ?thesis using d0 sz sg pl ar by (simp add: parse_int_def fs_empty_def)
  qed
qed

text \<open>
  Claim C4 fails on the code at the most negative value of \<open>int\<close> and of wider signed
  types. \<open>format\<close> takes the magnitude in the unsigned type and writes
  \<open>"-2147483648"\<close>; \<open>parse_int\<close> accumulates the magnitude in the signed type
  itself, and the last step, \<open>214748364 * 10 + 8\<close>, overflows \<open>int\<close>. The same
  happens at 64 bits. One above the minimum the round trip holds, and it holds at the
  minimum of the 8-bit and 16-bit types, whose arithmetic is done in \<open>int\<close>.
\<close>

theorem parse_int_min_overflows:
  "fs_view (format_int 32 True (- 2147483648)) = units ''-2147483648''
   \<and> parse_int 32 True (format_int 32 True (- 2147483648)) 10 = Inl SignedOverflow
   \<and> parse_int 64 True (format_int 64 True (- 9223372036854775808)) 10 = Inl SignedOverflow
   \<and> parse_int 32 True (format_int 32 True (- 2147483647)) 10 = Inr (- 2147483647)
   \<and> parse_int 8 True (format_int 8 True (- 128)) 10 = Inr (- 128)
   \<and> parse_int 16 True (format_int 16 True (- 32768)) 10 = Inr (- 32768)"
  by code_simp

section \<open>Verification: the buffer invariant\<close>

text \<open>End-to-end: trimming \<open>"  hello  "\<close>.\<close>

lemma trim_example:
  "fs_view (trim 32 (fstring_ptr_len 32 (Some (units ''  hello  '')) 9)) = units ''hello''"
  by code_simp

subsection \<open>Operations of \<open>basic_fstring\<close>\<close>

lemma set_null_terminator_inv:
  "length (fs_data s) = Cap + 1 \<Longrightarrow> fs_size s \<le> Cap \<Longrightarrow> fs_inv Cap (set_null_terminator s)"
  by (simp add: fs_inv_def set_null_terminator_def)

lemma fstring_literal_inv: "fs_inv Cap (fstring_literal Cap str)"
  by (simp add: fstring_literal_def Let_def fstring_default_def set_null_terminator_inv
      length_copy_n)

lemma fstring_ptr_len_inv:
  "len \<le> length src \<Longrightarrow> fs_inv Cap (fstring_ptr_len Cap (Some src) len)"
  by (simp add: fstring_ptr_len_def Let_def fstring_default_def set_null_terminator_inv
      length_copy_n)

lemma fstring_ptr_len_null_inv: "fs_inv Cap (fstring_ptr_len Cap None len)"
  by (simp add: fstring_ptr_len_def fs_inv_default)

lemma cstr_loop_inv:
  "cstr_loop Cap m d len = (d', len') \<Longrightarrow> len \<le> Cap \<Longrightarrow> length d' = length d \<and> len' \<le> Cap"
proof (induction Cap m d len rule: cstr_loop.induct)
  case (1 Cap m d len)
  show ?case
  proof (cases "len < length m \<and> m ! len \<noteq> 0 \<and> len < Cap")
    case True
    then have "cstr_loop Cap m (d[len := m ! len]) (len + 1) = (d', len')"
      using "1.prems"(1) by (subst (asm) cstr_loop.simps) simp
    from "1.IH"[OF True this] True show ?thesis by simp
  next
    case False
    then have "(d, len) = (d', len')"
      using "1.prems"(1) by (subst (asm) cstr_loop.simps) auto
    then show ?thesis using "1.prems"(2) by simp
  qed
qed

lemma fstring_cstr_inv: "fs_inv Cap (fstring_cstr Cap str)"
proof (cases str)
  case None
  then show ?thesis by (simp add: fstring_cstr_def fs_inv_default)
next
  case (Some m)
  obtain d len where l: "cstr_loop Cap m (fs_data (fstring_default Cap)) 0 = (d, len)"
    by (cases "cstr_loop Cap m (fs_data (fstring_default Cap :: 'a fstring)) 0")
  from cstr_loop_inv[OF l] have "length d = Cap + 1" "len \<le> Cap"
    by (simp_all add: fstring_default_def)
  then show ?thesis using Some l
    by (simp add: fstring_cstr_def set_null_terminator_inv)
qed

lemma fstring_fill_inv: "fs_inv Cap (fstring_fill Cap count ch)"
  by (simp add: fstring_fill_def Let_def fstring_default_def set_null_terminator_inv
      length_fill_n)

lemma fs_pop_back_inv: "fs_inv Cap s \<Longrightarrow> fs_inv Cap (fs_pop_back s)"
  by (auto simp: fs_inv_def fs_pop_back_def set_null_terminator_def)

lemma fs_resize_inv: "fs_inv Cap s \<Longrightarrow> fs_inv Cap (fs_resize Cap new_size ch s)"
  by (auto simp: fs_inv_def fs_resize_def Let_def set_null_terminator_def length_fill_n)

lemma fs_append_null_inv: "fs_inv Cap s \<Longrightarrow> fs_inv Cap (fs_append Cap None len s)"
  by (simp add: fs_append_def)

lemma fs_append_ch_inv: "fs_inv Cap s \<Longrightarrow> fs_inv Cap (fs_append_ch Cap ch s)"
  by (simp add: fs_append_ch_def fs_push_back_inv)

lemma fs_append_fill_inv: "fs_inv Cap s \<Longrightarrow> fs_inv Cap (fs_append_fill Cap count ch s)"
  by (auto simp: fs_inv_def fs_append_fill_def Let_def set_null_terminator_def length_fill_n
      available_def)

lemma fs_substr_inv:
  assumes "fs_inv Cap s"
  shows "fs_inv ResultCap (fs_substr ResultCap s pos count)"
proof (cases "pos \<ge> fs_size s")
  case True
  then show ?thesis by (simp add: fs_substr_def fs_inv_default)
next
  case False
  let ?c = "case count of None \<Rightarrow> fs_size s - pos | Some c \<Rightarrow> min c (fs_size s - pos)"
  have "?c \<le> fs_size s - pos" by (cases count) auto
  moreover have "fs_size s - pos \<le> length (drop pos (fs_data s))"
    using assms by (auto simp: fs_inv_def)
  ultimately have "?c \<le> length (drop pos (fs_data s))" by (rule order_trans)
  from fs_append_inv[OF fs_inv_default this] show ?thesis using False
    by (simp add: fs_substr_def)
qed

lemma fs_plus_array_inv:
  assumes "fs_inv Cap s"
  shows "fs_inv (Cap + length rhs) (fs_plus_array Cap s rhs)"
  unfolding fs_plus_array_def Let_def
  by (rule fs_append_inv[OF plus_first_inv[OF assms]]) simp

lemma fs_plus_assign_array_inv:
  "fs_inv Cap s \<Longrightarrow> fs_inv Cap (fs_plus_assign_array Cap s rhs)"
  by (simp add: fs_plus_assign_array_def fs_append_inv)

subsection \<open>The trimming functions\<close>

lemma first_non_space_loop_le: "i \<le> snd sv \<Longrightarrow> first_non_space_loop sv i \<le> snd sv"
proof (induction sv i rule: first_non_space_loop.induct)
  case (1 sv i)
  then show ?case by (subst first_non_space_loop.simps) auto
qed

lemma last_non_space_loop_le: "last_non_space_loop sv i \<le> i"
  by (induction i) auto

lemma sv_substr_readable:
  assumes "fs_inv Cap str" "pos \<le> fs_size str"
  shows "snd (sv_substr (fs_string_view str) pos count)
         \<le> length (fst (sv_substr (fs_string_view str) pos count))"
proof -
  have "(case count of None \<Rightarrow> fs_size str - pos | Some c \<Rightarrow> min c (fs_size str - pos))
        \<le> fs_size str - pos" by (cases count) auto
  moreover have "fs_size str - pos \<le> length (drop pos (fs_data str))"
    using assms by (auto simp: fs_inv_def)
  ultimately have "(case count of None \<Rightarrow> fs_size str - pos | Some c \<Rightarrow> min c (fs_size str - pos))
        \<le> length (drop pos (fs_data str))" by (rule order_trans)
  then show ?thesis by (simp add: sv_substr_def fs_string_view_def)
qed

lemma trim_left_inv: assumes "fs_inv Cap str" shows "fs_inv Cap (trim_left Cap str)"
proof -
  let ?sv = "fs_string_view str"
  show ?thesis
  proof (cases "find_first_non_space ?sv < snd ?sv")
    case True
    then have "find_first_non_space ?sv \<le> fs_size str" by (simp add: fs_string_view_def)
    from fs_append_inv[OF fs_inv_default sv_substr_readable[OF assms this]] True
    show ?thesis by (simp add: trim_left_def Let_def)
  next
    case False
    then show ?thesis by (simp add: trim_left_def Let_def fs_inv_default)
  qed
qed

lemma trim_right_inv: assumes "fs_inv Cap str" shows "fs_inv Cap (trim_right Cap str)"
proof -
  let ?sv = "fs_string_view str"
  have "(0::nat) \<le> fs_size str" by simp
  from fs_append_inv[OF fs_inv_default sv_substr_readable[OF assms this]]
  show ?thesis by (simp add: trim_right_def Let_def fs_inv_default)
qed

lemma trim_inv: assumes "fs_inv Cap str" shows "fs_inv Cap (trim Cap str)"
proof -
  let ?sv = "fs_string_view str"
  show ?thesis
  proof (cases "find_first_non_space ?sv < find_last_non_space ?sv")
    case True
    have "find_last_non_space ?sv \<le> fs_size str"
      using last_non_space_loop_le[of ?sv "snd ?sv"]
      by (simp add: find_last_non_space_def fs_string_view_def)
    then have "find_first_non_space ?sv \<le> fs_size str" using True by simp
    from fs_append_inv[OF fs_inv_default sv_substr_readable[OF assms this]] True
    show ?thesis by (simp add: trim_def Let_def)
  next
    case False
    then show ?thesis by (simp add: trim_def Let_def fs_inv_default)
  qed
qed

subsection \<open>Operations of \<open>zuu::string\<close>\<close>

lemma string_default_inv: "str_inv N (string_default N)"
  by (simp add: str_inv_def string_default_def)

lemma assign_impl_inv:
  "length (zs_data s) = N + 1 \<Longrightarrow> count \<le> length str \<Longrightarrow> str_inv N (assign_impl N str count s)"
  by (auto simp: str_inv_def assign_impl_def Let_def memcpy_string_def length_copy_n)

lemma string_data_length: "str_inv N s \<Longrightarrow> length (zs_data s) = N + 1"
  by (simp add: str_inv_def)

lemma string_default_length: "length (zs_data (string_default N)) = N + 1"
  by (simp add: string_default_def)

lemma string_cstr_inv: "str_inv N (string_cstr N str)"
  by (cases str)
     (simp_all add: string_cstr_def string_default_inv assign_impl_inv string_default_length
        c_strlen_le)

lemma string_array_inv: "str_inv N (string_array N str)"
  by (simp add: string_array_def Let_def assign_impl_inv string_default_length)

lemma string_fill_inv: "str_inv N (string_fill N count ch)"
  by (auto simp: string_fill_def Let_def str_inv_def memset_string_def length_fill_n
      string_default_def)

lemma string_len_le: "str_inv M other \<Longrightarrow> zs_len other \<le> length (zs_data other)"
  by (simp add: str_inv_def)

lemma string_copy_inv: "str_inv M other \<Longrightarrow> str_inv N (string_copy N other)"
  by (simp add: string_copy_def assign_impl_inv string_default_length string_len_le)

lemma string_clear_inv: "str_inv N s \<Longrightarrow> str_inv N (string_clear s)"
  by (simp add: str_inv_def string_clear_def)

lemma string_assign_cstr_inv: "str_inv N s \<Longrightarrow> str_inv N (string_assign_cstr N str s)"
  by (cases str)
     (simp_all add: string_assign_cstr_def string_clear_inv assign_impl_inv string_data_length
        c_strlen_le)

lemma string_assign_inv: "str_inv N s \<Longrightarrow> str_inv M other \<Longrightarrow> str_inv N (string_assign N other s)"
  unfolding string_assign_def
  by (rule assign_impl_inv) (simp_all add: str_inv_def)

lemma string_push_back_inv: "str_inv N s \<Longrightarrow> str_inv N (snd (string_push_back N ch s))"
  by (auto simp: str_inv_def string_push_back_def Let_def)

lemma string_pop_back_inv: "str_inv N s \<Longrightarrow> str_inv N (string_pop_back s)"
  by (auto simp: str_inv_def string_pop_back_def)

lemma string_append_inv:
  "str_inv N s \<Longrightarrow> count \<le> length src \<Longrightarrow> str_inv N (snd (string_append N (Some src) count s))"
  by (auto simp: str_inv_def string_append_def Let_def memcpy_string_def length_copy_n)

lemma string_append_null_inv: "str_inv N s \<Longrightarrow> str_inv N (snd (string_append N None count s))"
  by (simp add: string_append_def)

lemma string_append_string_inv:
  "str_inv N s \<Longrightarrow> str_inv M other \<Longrightarrow> str_inv N (snd (string_append_string N other s))"
  by (simp add: string_append_string_def string_append_inv string_len_le)

lemma string_append_cstr_inv: "str_inv N s \<Longrightarrow> str_inv N (snd (string_append_cstr N str s))"
  by (cases str) (simp_all add: string_append_cstr_def string_append_inv c_strlen_le)

lemma string_append_fill_inv: "str_inv N s \<Longrightarrow> str_inv N (snd (string_append_fill N count ch s))"
  by (auto simp: str_inv_def string_append_fill_def Let_def memset_string_def length_fill_n)

lemma string_insert_inv:
  assumes "str_inv N s" "count \<le> length src"
  shows "str_inv N (string_insert N pos (Some src) count s)"
proof (cases "pos > zs_len s \<or> count = 0 \<or> zs_len s \<ge> N")
  case True
  then show ?thesis using assms(1) by (auto simp: string_insert_def)
next
  case False
  define to_insert where "to_insert = min count (N - zs_len s)"
  define to_move where "to_move = zs_len s - pos"
  define d1 where "d1 = (if to_move > 0
      then memmove_string (zs_data s) (pos + to_insert) pos to_move else zs_data s)"
  define d2 where "d2 = memcpy_string d1 pos src to_insert"
  define len where "len = min (zs_len s + to_insert) N"
  have L: "length (zs_data s) = N + 1" "zs_len s \<le> N" using assms(1) by (auto simp: str_inv_def)
  have b: "pos \<le> zs_len s" "zs_len s < N" "to_insert \<le> N - zs_len s" "to_insert \<le> length src"
    using False assms(2) by (auto simp: to_insert_def)
  have l1: "length d1 = N + 1"
    using L b by (auto simp: d1_def memmove_string_def length_copy_n to_move_def)
  have l2: "length d2 = N + 1"
    using l1 L b by (auto simp: d2_def memcpy_string_def length_copy_n)
  have r: "string_insert N pos (Some src) count s = \<lparr>zs_data = d2[len := 0], zs_len = len\<rparr>"
    using False
    by (simp add: string_insert_def Let_def d1_def d2_def len_def to_insert_def to_move_def)
  show ?thesis unfolding r using l2 by (simp add: str_inv_def len_def)
qed

lemma string_insert_null_inv: "str_inv N s \<Longrightarrow> str_inv N (string_insert N pos None count s)"
  by (simp add: string_insert_def)

lemma string_erase_inv:
  assumes "str_inv N s"
  shows "str_inv N (string_erase pos count s)"
proof (cases "pos \<ge> zs_len s")
  case True
  then show ?thesis using assms by (simp add: string_erase_def)
next
  case False
  define to_erase where "to_erase = (case count of None \<Rightarrow> zs_len s - pos
                                        | Some c \<Rightarrow> min c (zs_len s - pos))"
  define new_len where "new_len = zs_len s - to_erase"
  define to_move where "to_move = zs_len s - (pos + to_erase)"
  define d where "d = (if to_move > 0
      then memmove_string (zs_data s) pos (pos + to_erase) to_move else zs_data s)"
  have L: "length (zs_data s) = N + 1" "zs_len s \<le> N" using assms(1) by (auto simp: str_inv_def)
  have e: "to_erase \<le> zs_len s - pos" by (cases count) (auto simp: to_erase_def)
  have l: "length d = N + 1"
    using L e False by (auto simp: d_def memmove_string_def length_copy_n to_move_def)
  have r: "string_erase pos count s = \<lparr>zs_data = d[new_len := 0], zs_len = new_len\<rparr>"
    using False
    by (simp add: string_erase_def Let_def d_def new_len_def to_erase_def to_move_def)
  show ?thesis unfolding r using l L by (simp add: str_inv_def new_len_def)
qed

lemma string_replace_inv:
  "str_inv N s \<Longrightarrow> str_len \<le> length src \<Longrightarrow>
   str_inv N (string_replace N pos count (Some src) str_len s)"
  by (simp add: string_replace_def string_insert_inv string_erase_inv)

lemma string_replace_null_inv:
  "str_inv N s \<Longrightarrow> str_inv N (string_replace N pos count None str_len s)"
  by (simp add: string_replace_def)

lemma string_reverse_inv:
  assumes "str_inv N s"
  shows "str_inv N (string_reverse s)"
proof -
  have L: "length (zs_data s) = N + 1" "zs_len s \<le> N" "zs_data s ! zs_len s = 0"
    using assms(1) by (auto simp: str_inv_def)
  have n: "zs_len s \<le> length (zs_data s)" "zs_len s < length (zs_data s)" using L by auto
  from swap_loop_rev(2)[OF n(1)] swap_loop_rev(3)[OF n(1) order_refl n(2)]
  show ?thesis using L by (simp add: str_inv_def string_reverse_def)
qed

lemma trim_start_loop_bounds:
  "start \<le> zs_len s \<Longrightarrow> start \<le> trim_start_loop is_sp s start \<and> trim_start_loop is_sp s start \<le> zs_len s"
proof (induction is_sp s start rule: trim_start_loop.induct)
  case (1 is_sp s start)
  show ?case
  proof (cases "start < zs_len s \<and> is_sp (zs_data s ! start)")
    case True
    then have "trim_start_loop is_sp s start = trim_start_loop is_sp s (start + 1)"
      by (subst trim_start_loop.simps) simp
    moreover have "start + 1 \<le> zs_len s" using True by simp
    ultimately show ?thesis using "1.IH"[OF True] by simp
  next
    case False
    then have "trim_start_loop is_sp s start = start"
      by (subst trim_start_loop.simps) auto
    then show ?thesis using "1.prems" by simp
  qed
qed

lemma trim_end_loop_bounds:
  "start \<le> e \<Longrightarrow> start \<le> trim_end_loop is_sp s start e \<and> trim_end_loop is_sp s start e \<le> e"
proof (induction is_sp s start e rule: trim_end_loop.induct)
  case (1 is_sp s start e)
  show ?case
  proof (cases "e > start \<and> is_sp (zs_data s ! (e - 1))")
    case True
    then have "trim_end_loop is_sp s start e = trim_end_loop is_sp s start (e - 1)"
      by (subst trim_end_loop.simps) simp
    moreover have "start \<le> e - 1" using True by linarith
    ultimately have "start \<le> trim_end_loop is_sp s start e"
      "trim_end_loop is_sp s start e \<le> e - 1"
      using "1.IH"[OF True] by simp_all
    then show ?thesis by linarith
  next
    case False
    then have "trim_end_loop is_sp s start e = e"
      by (subst trim_end_loop.simps) auto
    then show ?thesis using "1.prems" by simp
  qed
qed

lemma string_trim_inv:
  assumes "str_inv N s"
  shows "str_inv N (string_trim is_sp s)"
proof -
  define start where "start = trim_start_loop is_sp s 0"
  define e where "e = trim_end_loop is_sp s start (zs_len s)"
  have L: "length (zs_data s) = N + 1" "zs_len s \<le> N" using assms(1) by (auto simp: str_inv_def)
  have s: "start \<le> zs_len s" using trim_start_loop_bounds[of 0 s is_sp] by (simp add: start_def)
  have b: "start \<le> e" "e \<le> zs_len s" using trim_end_loop_bounds[OF s, of is_sp s] by (simp_all add: e_def)
  show ?thesis
  proof (cases "start > 0 \<or> e < zs_len s")
    case False
    have "string_trim is_sp s = s"
      unfolding string_trim_def Let_def start_def[symmetric] e_def[symmetric]
      using False by simp
    then show ?thesis using assms by simp
  next
    case True
    define d where "d = (if start > 0 then memmove_string (zs_data s) 0 start (e - start) else zs_data s)"
    have l: "length d = N + 1"
      using L s b by (auto simp: d_def memmove_string_def length_copy_n)
    have r: "string_trim is_sp s = \<lparr>zs_data = d[e - start := 0], zs_len = e - start\<rparr>"
      unfolding string_trim_def Let_def start_def[symmetric] e_def[symmetric] d_def
      using True by simp
    show ?thesis unfolding r using l L b by (simp add: str_inv_def)
  qed
qed

lemma string_substr_inv:
  assumes "str_inv M s"
  shows "str_inv N (string_substr N s pos count)"
proof (cases "pos \<ge> zs_len s")
  case True
  then show ?thesis by (simp add: string_substr_def string_default_inv)
next
  case False
  let ?c = "case count of None \<Rightarrow> zs_len s - pos | Some c \<Rightarrow> min c (zs_len s - pos)"
  have "?c \<le> zs_len s - pos" by (cases count) auto
  moreover have "zs_len s - pos \<le> length (drop pos (zs_data s))"
    using assms by (auto simp: str_inv_def)
  ultimately have "?c \<le> length (drop pos (zs_data s))" by (rule order_trans)
  from assign_impl_inv[OF string_default_length this] show ?thesis using False
    by (simp add: string_substr_def)
qed

subsection \<open>Every operation keeps the invariant\<close>

text \<open>
  Claim C1. A buffer satisfies the invariant when its array has \<open>capacity + 1\<close> units,
  \<open>size() \<le> capacity()\<close>, and the unit at index \<open>size()\<close> is the terminator. Every
  constructor establishes it, and every operation named in the claim, given buffers that
  satisfy it and pointer arguments that can be read up to the given length, returns or
  leaves a buffer that satisfies it: \<open>clear\<close>, \<open>push_back\<close>, \<open>pop_back\<close>, \<open>resize\<close>,
  \<open>append\<close>, \<open>operator+\<close>, \<open>operator+=\<close>, \<open>substr\<close>, the three trims and every part
  of a \<open>split\<close> or \<open>rsplit\<close> result for \<open>basic_fstring\<close>; construction, assignment,
  \<open>clear\<close>, \<open>push_back\<close>, \<open>pop_back\<close>, \<open>append\<close>, \<open>insert\<close>, \<open>erase\<close>, \<open>replace\<close>,
  \<open>reverse\<close>, \<open>trim\<close> and \<open>substr\<close> for \<open>zuu::string\<close>. Copy construction and copy
  assignment of \<open>basic_fstring\<close> are defaulted and yield the source buffer itself.
\<close>

theorem buffer_invariant:
  fixes s :: "'a::zero fstring" and c :: "char_t fstring" and t :: "'a zstring"
    and other :: "'a zstring"
  assumes "fs_inv Cap s" and "fs_inv Cap c" and "str_inv N t" and "str_inv M other"
    and "len \<le> length src"
  shows
    "fs_inv Cap (fstring_default Cap :: 'a fstring)
     \<and> fs_inv Cap (fstring_literal Cap lit :: 'a fstring)
     \<and> fs_inv Cap (fstring_ptr_len Cap (Some src) len)
     \<and> fs_inv Cap (fstring_ptr_len Cap None len :: 'a fstring)
     \<and> fs_inv Cap (fstring_cstr Cap cstr :: 'a fstring)
     \<and> fs_inv Cap (fstring_fill Cap count ch)
     \<and> fs_inv Cap (fs_clear s)
     \<and> fs_inv Cap (fs_push_back Cap ch s)
     \<and> fs_inv Cap (fs_pop_back s)
     \<and> fs_inv Cap (fs_resize Cap new_size ch s)
     \<and> fs_inv Cap (fs_append Cap (Some src) len s)
     \<and> fs_inv Cap (fs_append Cap None len s)
     \<and> fs_inv Cap (fs_append_ch Cap ch s)
     \<and> fs_inv Cap (fs_append_fill Cap count ch s)
     \<and> fs_inv (Cap + length rhs) (fs_plus_array Cap s rhs)
     \<and> fs_inv Cap (fs_plus_assign_array Cap s rhs)
     \<and> fs_inv ResultCap (fs_substr ResultCap s pos cnt)
     \<and> fs_inv Cap (trim Cap c)
     \<and> fs_inv Cap (trim_left Cap c)
     \<and> fs_inv Cap (trim_right Cap c)
     \<and> list_all (fs_inv Cap) (sr_parts (split_char Cap MaxParts s d))
     \<and> sr_count (split_char Cap MaxParts s d) \<le> MaxParts
     \<and> list_all (fs_inv Cap) (sr_parts (rsplit Cap MaxParts s d))
     \<and> sr_count (rsplit Cap MaxParts s d) \<le> MaxParts
     \<and> str_inv N (string_default N :: 'a zstring)
     \<and> str_inv N (string_cstr N cstr :: 'a zstring)
     \<and> str_inv N (string_array N lit :: 'a zstring)
     \<and> str_inv N (string_fill N count ch)
     \<and> str_inv N (string_copy N other)
     \<and> str_inv N (string_assign_cstr N cstr t)
     \<and> str_inv N (string_assign N other t)
     \<and> str_inv N (string_clear t)
     \<and> str_inv N (snd (string_push_back N ch t))
     \<and> str_inv N (string_pop_back t)
     \<and> str_inv N (snd (string_append N (Some src) len t))
     \<and> str_inv N (snd (string_append N None len t))
     \<and> str_inv N (snd (string_append_string N other t))
     \<and> str_inv N (snd (string_append_cstr N cstr t))
     \<and> str_inv N (snd (string_append_fill N count ch t))
     \<and> str_inv N (string_insert N pos (Some src) len t)
     \<and> str_inv N (string_insert N pos None len t)
     \<and> str_inv N (string_erase pos cnt t)
     \<and> str_inv N (string_replace N pos cnt (Some src) len t)
     \<and> str_inv N (string_replace N pos cnt None len t)
     \<and> str_inv N (string_reverse t)
     \<and> str_inv N (string_trim is_sp t)
     \<and> str_inv N (string_substr N t pos cnt)"
proof -
  have construct:
    "fs_inv Cap (fstring_default Cap :: 'a fstring)"
    "fs_inv Cap (fstring_literal Cap lit :: 'a fstring)"
    "fs_inv Cap (fstring_ptr_len Cap (Some src) len)"
    "fs_inv Cap (fstring_ptr_len Cap None len :: 'a fstring)"
    "fs_inv Cap (fstring_cstr Cap cstr :: 'a fstring)"
    "fs_inv Cap (fstring_fill Cap count ch)"
    using assms(5)
    by (simp_all add: fs_inv_default fstring_literal_inv fstring_ptr_len_inv
        fstring_ptr_len_null_inv fstring_cstr_inv fstring_fill_inv)
  have modify:
    "fs_inv Cap (fs_clear s)"
    "fs_inv Cap (fs_push_back Cap ch s)"
    "fs_inv Cap (fs_pop_back s)"
    "fs_inv Cap (fs_resize Cap new_size ch s)"
    "fs_inv Cap (fs_append Cap (Some src) len s)"
    "fs_inv Cap (fs_append Cap None len s)"
    "fs_inv Cap (fs_append_ch Cap ch s)"
    "fs_inv Cap (fs_append_fill Cap count ch s)"
    "fs_inv (Cap + length rhs) (fs_plus_array Cap s rhs)"
    "fs_inv Cap (fs_plus_assign_array Cap s rhs)"
    "fs_inv ResultCap (fs_substr ResultCap s pos cnt)"
    using assms(1,5)
    by (simp_all add: fs_clear_inv fs_push_back_inv fs_pop_back_inv fs_resize_inv
        fs_append_inv fs_append_null_inv fs_append_ch_inv fs_append_fill_inv
        fs_plus_array_inv fs_plus_assign_array_inv fs_substr_inv)
  have trims:
    "fs_inv Cap (trim Cap c)" "fs_inv Cap (trim_left Cap c)" "fs_inv Cap (trim_right Cap c)"
    using assms(2) by (simp_all add: trim_inv trim_left_inv trim_right_inv)
  have splits:
    "list_all (fs_inv Cap) (sr_parts (split_char Cap MaxParts s d))"
    "sr_count (split_char Cap MaxParts s d) \<le> MaxParts"
    "list_all (fs_inv Cap) (sr_parts (rsplit Cap MaxParts s d))"
    "sr_count (rsplit Cap MaxParts s d) \<le> MaxParts"
    using split_char_tokens(2,4)[OF assms(1), of MaxParts d]
      rsplit_tokens(2,4)[OF assms(1), of MaxParts d]
    by simp_all
  have zconstruct:
    "str_inv N (string_default N :: 'a zstring)"
    "str_inv N (string_cstr N cstr :: 'a zstring)"
    "str_inv N (string_array N lit :: 'a zstring)"
    "str_inv N (string_fill N count ch)"
    "str_inv N (string_copy N other)"
    "str_inv N (string_assign_cstr N cstr t)"
    "str_inv N (string_assign N other t)"
    using assms(3) string_copy_inv[OF assms(4)] string_assign_inv[OF assms(3,4)]
    by (simp_all add: string_default_inv string_cstr_inv string_array_inv string_fill_inv
        string_assign_cstr_inv)
  have zmodify:
    "str_inv N (string_clear t)"
    "str_inv N (snd (string_push_back N ch t))"
    "str_inv N (string_pop_back t)"
    "str_inv N (snd (string_append N (Some src) len t))"
    "str_inv N (snd (string_append N None len t))"
    "str_inv N (snd (string_append_string N other t))"
    "str_inv N (snd (string_append_cstr N cstr t))"
    "str_inv N (snd (string_append_fill N count ch t))"
    using assms(3,5) string_append_string_inv[OF assms(3,4)]
    by (simp_all add: string_clear_inv string_push_back_inv string_pop_back_inv
        string_append_inv string_append_null_inv string_append_cstr_inv
        string_append_fill_inv)
  have zshift:
    "str_inv N (string_insert N pos (Some src) len t)"
    "str_inv N (string_insert N pos None len t)"
    "str_inv N (string_erase pos cnt t)"
    "str_inv N (string_replace N pos cnt (Some src) len t)"
    "str_inv N (string_replace N pos cnt None len t)"
    "str_inv N (string_reverse t)"
    "str_inv N (string_trim is_sp t)"
    "str_inv N (string_substr N t pos cnt)"
    using assms(3,5)
    by (simp_all add: string_insert_inv string_insert_null_inv string_erase_inv
        string_replace_inv string_replace_null_inv string_reverse_inv string_trim_inv
        string_substr_inv)
  show ?thesis
    by (intro conjI construct modify trims splits zconstruct zmodify zshift)
qed

theorem buffer_invariant_witness:
  "fs_inv 5 (fstring_literal 5 (literal ''ab''))
   \<and> fs_inv 5 (fstring_ptr_len 5 (Some (units '' a '')) 3)
   \<and> str_inv 5 (string_array 5 (literal ''ab''))
   \<and> str_inv 3 (string_array 3 (literal ''xyz''))
   \<and> (5::nat) \<le> length (units ''cdefg'')
   \<and> fs_inv 5 (fstring_ptr_len 5 (Some (units ''cdefg'')) 5)
   \<and> fs_inv 5 (fs_push_back 5 (of_char CHR ''x'') (fstring_literal 5 (literal ''ab'')))
   \<and> fs_inv 5 (fs_resize 5 4 (of_char CHR ''x'') (fstring_literal 5 (literal ''ab'')))
   \<and> fs_inv 5 (fs_append 5 (Some (units ''cdefg'')) 5 (fstring_literal 5 (literal ''ab'')))
   \<and> fs_inv 3 (fs_substr 3 (fstring_literal 5 (literal ''ab'')) 1 (Some 2))
   \<and> fs_inv 5 (trim 5 (fstring_ptr_len 5 (Some (units '' a '')) 3))
   \<and> list_all (fs_inv 5) (sr_parts (split_char 5 16 (fstring_literal 5 (literal ''ab'')) comma))
   \<and> str_inv 5 (snd (string_push_back 5 (of_char CHR ''x'') (string_array 5 (literal ''ab''))))
   \<and> str_inv 5 (string_insert 5 1 (Some (units ''cdefg'')) 5 (string_array 5 (literal ''ab'')))
   \<and> str_inv 5 (string_erase 1 (Some 2) (string_array 5 (literal ''ab'')))
   \<and> str_inv 5 (string_replace 5 1 (Some 2) (Some (units ''cdefg'')) 5
         (string_array 5 (literal ''ab'')))
   \<and> str_inv 5 (string_reverse (string_array 5 (literal ''ab'')))
   \<and> str_inv 5 (string_trim is_space (string_array 5 (literal ''ab'')))
   \<and> zs_data (string_insert 5 1 (Some (units ''cdefg'')) 5 (string_array 5 (literal ''ab'')))
       = literal ''acdeb''"
proof -
  have h1: "fs_inv 5 (fstring_literal 5 (literal ''ab''))" by code_simp
  have h2: "fs_inv 5 (fstring_ptr_len 5 (Some (units '' a '')) 3)" by code_simp
  have h3: "str_inv 5 (string_array 5 (literal ''ab''))" by code_simp
  have h4: "str_inv 3 (string_array 3 (literal ''xyz''))" by code_simp
  have h5: "(5::nat) \<le> length (units ''cdefg'')" by code_simp
  have e: "zs_data (string_insert 5 1 (Some (units ''cdefg'')) 5 (string_array 5 (literal ''ab'')))
           = literal ''acdeb''" by code_simp
  note T = buffer_invariant [where lit = "literal ''hello!''" and cstr = "Some (literal ''hi'')"
      and count = 9 and ch = "of_char CHR ''x''" and new_size = 4 and rhs = "literal ''!''"
      and ResultCap = 3 and pos = 1 and cnt = "Some 2" and MaxParts = 16 and d = comma
      and is_sp = is_space, OF h1 h2 h3 h4 h5]
  show ?thesis
    by (intro conjI h1 h2 h3 h4 h5 e) (simp_all only: T)
qed

end
